theory Spec2Isabelle
  imports Complex_Main
begin

section \<open>Callback Client (\<^verbatim>\<open>scheduler/image_builder.py\<close>, \<^verbatim>\<open>_callback_with_retry\<close>)\<close>

text \<open>
  The retry loop talks to two collaborators: the token issuer
  (\<^verbatim>\<open>generate_internal_token\<close>) and the HTTP client. Both may raise; what they do on
  attempt \<open>k\<close> is an input of the model. An exception carries the text of \<^verbatim>\<open>str(e)\<close>.
  Exceptions are instances of \<^verbatim>\<open>Exception\<close>, which is what the handlers catch; the
  cancellation of a task is outside the model, and logging does not raise.
\<close>

datatype 'a outcome = Raises string | Returns 'a

text \<open>
  The POST either raises (network error, timeout) or yields a response with a status code.
  \<^verbatim>\<open>response.raise_for_status()\<close> of httpx returns for a 2xx status and raises otherwise.
\<close>

definition raise_for_status :: "nat \<Rightarrow> unit outcome" where
  "raise_for_status status =
     (if 200 \<le> status \<and> status \<le> 299 then Returns () else Raises ''HTTPStatusError'')"

record attempt_env =
  mint :: "string outcome"
  post :: "nat outcome"

datatype payload =
    SuccessBody string string string int
  | FailureBody string string

text \<open>
  What one delivery does, in order: token requests, HTTP requests (with the URL, body and
  bearer token sent) and sleeps (in seconds).
\<close>

datatype effect =
    Mint "string outcome"
  | Post string payload string "nat outcome"
  | Sleep nat

definition CALLBACK_MAX_RETRIES :: nat where
  "CALLBACK_MAX_RETRIES = 3"

definition CALLBACK_BACKOFF_BASE :: nat where
  "CALLBACK_BACKOFF_BASE = 2"

text \<open>
  The body of the \<^verbatim>\<open>try\<close>: mint the token, post, \<^verbatim>\<open>raise_for_status\<close>. The result is
  \<open>True\<close> when the \<^verbatim>\<open>return True\<close> is reached and \<open>False\<close> when an exception reached the
  \<^verbatim>\<open>except Exception\<close> clause.
\<close>

definition try_attempt :: "attempt_env \<Rightarrow> string \<Rightarrow> payload \<Rightarrow> bool \<times> effect list" where
  "try_attempt e url body =
     (case mint e of
        Raises m \<Rightarrow> (False, [Mint (Raises m)])
      | Returns token \<Rightarrow>
          (case post e of
             Raises m \<Rightarrow> (False, [Mint (Returns token), Post url body token (Raises m)])
           | Returns status \<Rightarrow>
               (case raise_for_status status of
                  Raises m \<Rightarrow> (False, [Mint (Returns token), Post url body token (Returns status)])
                | Returns u \<Rightarrow> (True, [Mint (Returns token), Post url body token (Returns status)]))))"

text \<open>
  \<^verbatim>\<open>for attempt in range(CALLBACK_MAX_RETRIES)\<close>: recursion over the list of attempt
  numbers. In the handler, \<^verbatim>\<open>delay = CALLBACK_BACKOFF_BASE ** (attempt + 1)\<close>, slept only
  if \<^verbatim>\<open>attempt < CALLBACK_MAX_RETRIES - 1\<close>. Falling out of the loop returns \<open>False\<close>.
\<close>

fun retry_loop :: "(nat \<Rightarrow> attempt_env) \<Rightarrow> string \<Rightarrow> payload \<Rightarrow> nat list \<Rightarrow> bool \<times> effect list" where
  "retry_loop env url body [] = (False, [])"
| "retry_loop env url body (attempt # rest) =
     (case try_attempt (env attempt) url body of
        (True, evs) \<Rightarrow> (True, evs)
      | (False, evs) \<Rightarrow>
          (let delay = CALLBACK_BACKOFF_BASE ^ (attempt + 1);
               pause = (if attempt < CALLBACK_MAX_RETRIES - 1 then [Sleep delay] else []);
               r = retry_loop env url body rest
           in (fst r, evs @ pause @ snd r)))"

definition callback_with_retry :: "(nat \<Rightarrow> attempt_env) \<Rightarrow> string \<Rightarrow> payload \<Rightarrow> bool \<times> effect list" where
  "callback_with_retry env url body = retry_loop env url body [0..<CALLBACK_MAX_RETRIES]"

text \<open>Projections of a delivery's effects.\<close>

fun is_post :: "effect \<Rightarrow> bool" where
  "is_post (Post u b t r) = True"
| "is_post e = False"

definition posts :: "effect list \<Rightarrow> effect list" where
  "posts evs = filter is_post evs"

fun sleeps :: "effect list \<Rightarrow> nat list" where
  "sleeps [] = []"
| "sleeps (Sleep d # evs) = d # sleeps evs"
| "sleeps (e # evs) = sleeps evs"

text \<open>
  Every request carries the token that was minted immediately before it: no request
  without a fresh token.
\<close>

fun fresh_tokens :: "effect list \<Rightarrow> bool" where
  "fresh_tokens [] = True"
| "fresh_tokens (Mint (Returns t) # Post u b t' r # evs) = (t = t' \<and> fresh_tokens evs)"
| "fresh_tokens (Post u b t r # evs) = False"
| "fresh_tokens (e # evs) = fresh_tokens evs"

fun mint_raises :: "attempt_env \<Rightarrow> bool" where
  "mint_raises e = (case mint e of Raises m \<Rightarrow> True | Returns t \<Rightarrow> False)"

section \<open>Image Builder (\<^verbatim>\<open>scheduler/image_builder.py\<close>, \<^verbatim>\<open>build_repo_image\<close>)\<close>

subsection \<open>Python string operations used by the builder\<close>

text \<open>\<^verbatim>\<open>str(n)\<close> for a Python int: decimal digits, with a leading minus sign.\<close>

definition digit_char :: "nat \<Rightarrow> char" where
  "digit_char d = char_of (48 + d)"

function nat_digits :: "nat \<Rightarrow> string" where
  "nat_digits n = (if n < 10 then [digit_char n] else nat_digits (n div 10) @ [digit_char (n mod 10)])"
  by pat_completeness auto
termination
  by (relation "measure (\<lambda>n. n)") auto

declare nat_digits.simps [simp del]

definition str_int :: "int \<Rightarrow> string" where
  "str_int i = (if i < 0 then CHR ''-'' # nat_digits (nat (- i)) else nat_digits (nat i))"

text \<open>
  \<^verbatim>\<open>s.replace(old, new)\<close>: scanning from the left, every non-overlapping occurrence of
  \<open>old\<close> is replaced. For an empty \<open>old\<close> Python puts \<open>new\<close> before every character
  and at the end.
\<close>

fun startswith :: "string \<Rightarrow> string \<Rightarrow> bool" where
  "startswith s [] = True"
| "startswith [] (p # ps) = False"
| "startswith (c # cs) (p # ps) = (c = p \<and> startswith cs ps)"

function replace_scan :: "string \<Rightarrow> string \<Rightarrow> string \<Rightarrow> string" where
  "replace_scan s old new =
     (if s = [] \<or> old = [] then s
      else if startswith s old then new @ replace_scan (drop (length old) s) old new
      else hd s # replace_scan (tl s) old new)"
  by pat_completeness auto
termination
  by (relation "measure (\<lambda>(s, old, new). length s)") auto

declare replace_scan.simps [simp del]

definition py_replace :: "string \<Rightarrow> string \<Rightarrow> string \<Rightarrow> string" where
  "py_replace s old new =
     (if old = [] then new @ concat (map (\<lambda>c. c # new) s) else replace_scan s old new)"

subsection \<open>The build worker\<close>

record build_request =
  repo_owner :: string
  repo_name :: string
  default_branch :: string
  callback_url :: string
  build_id :: string

text \<open>
  What the collaborators of one invocation do: the statements before the \<^verbatim>\<open>try\<close> (the
  two imports inside the function, reading the clock, \<^verbatim>\<open>SandboxManager()\<close>), the
  environment variables of the GitHub App, the installation-token issuer, the sandbox
  provider (create, wait, return code,
  \<^verbatim>\<open>git rev-parse HEAD\<close> with its output already stripped, snapshot), the clock (the
  rounded duration in hundredths of a second) and the control plane answering callbacks.
\<close>

record build_env =
  before_try :: "unit outcome"
  app_credentials :: bool
  installation_token :: "string outcome"
  create_build_sandbox :: "unit outcome"
  sandbox_wait :: "unit outcome"
  sandbox_returncode :: int
  rev_parse_head :: "string outcome"
  snapshot_filesystem :: "string outcome"
  build_duration :: int
  control_plane :: "nat \<Rightarrow> attempt_env"

text \<open>One call of the Callback Client: URL, body, and what the delivery did.\<close>

datatype callback_call = Callback string payload "bool \<times> effect list"

text \<open>Step 1: the inner \<^verbatim>\<open>try\<close> swallows an exception of the issuer; the token stays empty.\<close>

definition clone_token :: "build_env \<Rightarrow> string" where
  "clone_token env =
     (if app_credentials env
      then (case installation_token env of Raises m \<Rightarrow> [] | Returns t \<Rightarrow> t)
      else [])"

definition read_sandbox_head_sha :: "build_env \<Rightarrow> string" where
  "read_sandbox_head_sha env = (case rev_parse_head env of Raises m \<Rightarrow> [] | Returns sha \<Rightarrow> sha)"

text \<open>
  Steps 1 to 5 and the duration: \<open>Inl\<close> is the text of the exception that leaves the
  \<^verbatim>\<open>try\<close> block, \<open>Inr\<close> the image id, base SHA and duration.
\<close>

definition build_steps :: "build_request \<Rightarrow> build_env \<Rightarrow> string + (string \<times> string \<times> int)" where
  "build_steps req env =
     (let token = clone_token env in
      case create_build_sandbox env of
        Raises m \<Rightarrow> Inl m
      | Returns handle \<Rightarrow>
          (case sandbox_wait env of
             Raises m \<Rightarrow> Inl m
           | Returns u \<Rightarrow>
               (let exit_code = sandbox_returncode env in
                if exit_code \<noteq> 0 then Inl (''Build sandbox exited with code '' @ str_int exit_code)
                else
                  (let base_sha = read_sandbox_head_sha env in
                   case snapshot_filesystem env of
                     Raises m \<Rightarrow> Inl m
                   | Returns provider_image_id \<Rightarrow>
                       Inr (provider_image_id, base_sha, build_duration env)))))"

text \<open>
  The whole \<^verbatim>\<open>try\<close> block, success callback included: the exception that leaves it (if
  any) and the callbacks made inside it.
\<close>

definition try_block :: "build_request \<Rightarrow> build_env \<Rightarrow> string option \<times> callback_call list" where
  "try_block req env =
     (case build_steps req env of
        Inl m \<Rightarrow> (Some m, [])
      | Inr (provider_image_id, base_sha, duration) \<Rightarrow>
          (None,
           if callback_url req \<noteq> []
           then [Callback (callback_url req)
                   (SuccessBody (build_id req) provider_image_id base_sha duration)
                   (callback_with_retry (control_plane env) (callback_url req)
                      (SuccessBody (build_id req) provider_image_id base_sha duration))]
           else []))"

text \<open>
  The worker: the callbacks it makes. The statements before the \<^verbatim>\<open>try\<close> are outside
  every handler: when one of them raises, the exception leaves the function and no
  callback is made.
\<close>

definition build_repo_image :: "build_request \<Rightarrow> build_env \<Rightarrow> callback_call list" where
  "build_repo_image req env =
     (case before_try env of
        Raises m \<Rightarrow> []
      | Returns u \<Rightarrow>
          (case try_block req env of
             (None, calls) \<Rightarrow> calls
           | (Some m, calls) \<Rightarrow>
               calls @
               (if callback_url req \<noteq> []
                then (let failure_url =
                            py_replace (callback_url req) ''/build-complete'' ''/build-failed''
                      in [Callback failure_url (FailureBody (build_id req) m)
                            (callback_with_retry (control_plane env) failure_url
                               (FailureBody (build_id req) m))])
                else [])))"

text \<open>The exception that leaves the worker, if any: only the statements before the
  \<^verbatim>\<open>try\<close> can let one out.\<close>

definition build_repo_image_raises :: "build_env \<Rightarrow> string option" where
  "build_repo_image_raises env = (case before_try env of Raises m \<Rightarrow> Some m | Returns u \<Rightarrow> None)"

text \<open>Which kind of callback a call is, by its body.\<close>

fun is_success_call :: "callback_call \<Rightarrow> bool" where
  "is_success_call (Callback u (SuccessBody b i s d) r) = True"
| "is_success_call c = False"

fun is_failure_call :: "callback_call \<Rightarrow> bool" where
  "is_failure_call (Callback u (FailureBody b e) r) = True"
| "is_failure_call c = False"

definition success_attempted :: "callback_call list \<Rightarrow> bool" where
  "success_attempted calls = list_ex is_success_call calls"

definition failure_attempted :: "callback_call list \<Rightarrow> bool" where
  "failure_attempted calls = list_ex is_failure_call calls"

text \<open>
  A step of 2 to 5 raises: the steps are reached (the statements before the \<^verbatim>\<open>try\<close>
  have returned) and creation, the wait, a non-zero exit code or the snapshot raises.
\<close>

fun raised :: "'a outcome \<Rightarrow> bool" where
  "raised (Raises m) = True"
| "raised (Returns x) = False"

definition steps_raise :: "build_env \<Rightarrow> bool" where
  "steps_raise env =
     (before_try env = Returns ()
      \<and> (raised (create_build_sandbox env) \<or> raised (sandbox_wait env)
         \<or> sandbox_returncode env \<noteq> 0 \<or> raised (snapshot_filesystem env)))"

text \<open>
  The specification's wording of the failure URL: the suffix \<open>old\<close> of the URL replaced,
  the rest unchanged.
\<close>

definition spec_replace_suffix :: "string \<Rightarrow> string \<Rightarrow> string \<Rightarrow> string" where
  "spec_replace_suffix url old new =
     (if length old \<le> length url \<and> drop (length url - length old) url = old
      then take (length url - length old) url @ new else url)"

text \<open>\<open>old\<close> does not occur in \<open>base @ old\<close> at a position inside \<open>base\<close>.\<close>

fun only_at_end :: "string \<Rightarrow> string \<Rightarrow> bool" where
  "only_at_end [] old = True"
| "only_at_end (c # cs) old = (\<not> startswith ((c # cs) @ old) old \<and> only_at_end cs old)"

text \<open>
  Scenario S6 of the specification: the build sandbox exits with code 7 and the control
  plane answers 503, 503, 200.
\<close>

definition s6_control_plane :: "nat \<Rightarrow> attempt_env" where
  "s6_control_plane k = \<lparr>mint = Returns ''token'', post = Returns (if k < 2 then 503 else 200)\<rparr>"

definition s6_request :: build_request where
  "s6_request = \<lparr>repo_owner = ''acme'', repo_name = ''widget'', default_branch = ''main'',
                  callback_url = ''https://cp/builds/b-1/build-complete'', build_id = ''b-1''\<rparr>"

definition s6_env :: build_env where
  "s6_env = \<lparr>before_try = Returns (), app_credentials = False, installation_token = Returns [],
              create_build_sandbox = Returns (), sandbox_wait = Returns (),
              sandbox_returncode = 7, rev_parse_head = Returns [],
              snapshot_filesystem = Returns ''img-xyz'', build_duration = 4235,
              control_plane = s6_control_plane\<rparr>"

text \<open>The token issuer raises on every attempt.\<close>

definition issuer_down :: "nat \<Rightarrow> attempt_env" where
  "issuer_down k = \<lparr>mint = Raises ''no secret'', post = Returns 200\<rparr>"

text \<open>A callback URL in which \<open>/build-complete\<close> also names a path segment.\<close>

definition segment_request :: build_request where
  "segment_request = \<lparr>repo_owner = ''acme'', repo_name = ''widget'', default_branch = ''main'',
                       callback_url = ''https://cp/build-complete/b-1/build-complete'',
                       build_id = ''b-1''\<rparr>"


fun call_url :: "callback_call \<Rightarrow> string" where
  "call_url (Callback u b r) = u"

fun call_body :: "callback_call \<Rightarrow> payload" where
  "call_body (Callback u b r) = b"

fun call_effects :: "callback_call \<Rightarrow> effect list" where
  "call_effects (Callback u b r) = snd r"

fun posted_to :: "string \<Rightarrow> payload \<Rightarrow> effect \<Rightarrow> bool" where
  "posted_to url body (Post u b t r) = (u = url \<and> b = body)"
| "posted_to url body e = True"



section \<open>Sandbox Supervisor (\<^verbatim>\<open>sandbox/entrypoint.py\<close>, class \<^verbatim>\<open>SandboxSupervisor\<close>)\<close>

text \<open>
  Two variants of the supervisor exist: the remote one (package \<^verbatim>\<open>sandbox-runtime\<close>) and
  the local-mount one (package \<^verbatim>\<open>sandbox\<close>). They share the state below; where their
  methods differ, the local one carries the suffix \<open>_local\<close>.
\<close>

subsection \<open>State\<close>

datatype child = Agent | Bridge

text \<open>
  A child process as the supervisor sees it: \<open>returncode\<close> is \<open>None\<close> while the process has
  not been reaped. A handle is the position of the process in the list of all processes
  created so far, so a handle that has been replaced still has its process there.
\<close>

record process =
  kind :: child
  returncode :: "int option"

text \<open>What the supervisor does that the outside can see, in order.\<close>

datatype event =
    Spawned child nat
  | HealthOk
  | ReadySet
  | ReadyCleared
  | ObservedExit child int
  | Backoff rat
  | Fatal string
  | FatalPost string
  | ShutdownStart
  | Terminate nat
  | Waited nat rat
  | Reaped nat int
  | Kill nat
  | ShutdownComplete

record supervisor =
  opencode_process :: "nat option"
  bridge_process :: "nat option"
  shutdown_event :: bool
  git_sync_complete :: bool
  opencode_ready :: bool
  processes :: "process list"
  trace :: "event list"

definition init :: supervisor where
  "init = \<lparr>opencode_process = None, bridge_process = None, shutdown_event = False,
            git_sync_complete = False, opencode_ready = False, processes = [], trace = []\<rparr>"

record config =
  sandbox_id :: string
  session_id :: string
  control_plane_url :: string
  control_plane_ws_url :: string
  sandbox_token :: string
  cfg_repo_owner :: string
  cfg_repo_name :: string

definition emit :: "event \<Rightarrow> supervisor \<Rightarrow> supervisor" where
  "emit e s = s\<lparr>trace := trace s @ [e]\<rparr>"

definition returncode_of :: "supervisor \<Rightarrow> nat \<Rightarrow> int option" where
  "returncode_of s h = (if h < length (processes s) then returncode (processes s ! h) else None)"

text \<open>\<^verbatim>\<open>asyncio.create_subprocess_exec\<close>: a new running process and its handle.\<close>

definition spawn :: "child \<Rightarrow> supervisor \<Rightarrow> nat \<times> supervisor" where
  "spawn k s =
     (length (processes s),
      s\<lparr>processes := processes s @ [\<lparr>kind = k, returncode = None\<rparr>],
        trace := trace s @ [Spawned k (length (processes s))]\<rparr>)"

text \<open>The process behind a handle exits with a code (nothing happens if it already has).\<close>

definition child_exits :: "nat \<Rightarrow> int \<Rightarrow> supervisor \<Rightarrow> supervisor" where
  "child_exits h c s =
     (if h < length (processes s) \<and> returncode (processes s ! h) = None
      then s\<lparr>processes := (processes s)[h := (processes s ! h)\<lparr>returncode := Some c\<rparr>]\<rparr>
      else s)"

text \<open>
  What the outside did to a child since the supervisor last looked: \<open>Some c\<close> means the
  process behind the handle (if there is one and it still runs) has exited with code \<open>c\<close>.
\<close>

definition settle :: "nat option \<Rightarrow> int option \<Rightarrow> supervisor \<Rightarrow> supervisor" where
  "settle handle exit s =
     (case handle of
        None \<Rightarrow> s
      | Some h \<Rightarrow> (case exit of None \<Rightarrow> s | Some c \<Rightarrow> child_exits h c s))"

text \<open>
  How a call ends: it returns, it raises, or it is still waiting when the recorded
  behaviour of the outside ends.
\<close>

datatype 'a result = Done 'a | Raised string | Pending

subsection \<open>Health Prober (\<^verbatim>\<open>_wait_for_health\<close>)\<close>

datatype get_outcome = ConnectError | OtherError string | Status nat

text \<open>
  One turn of the polling loop as the outside determines it: the clock reading
  \<^verbatim>\<open>time.time() - start_time\<close> at the loop test (seconds), whether a signal handler has
  run since the previous test, and what the GET of this turn yields.
\<close>

record poll =
  elapsed :: rat
  signalled :: bool
  response :: get_outcome

datatype health = Healthy | ShutdownRequested | Unhealthy | Polling

definition HEALTH_CHECK_TIMEOUT :: rat where
  "HEALTH_CHECK_TIMEOUT = 30"

definition HEALTH_CHECK_TIMEOUT_local :: rat where
  "HEALTH_CHECK_TIMEOUT_local = 60"

text \<open>
  The loop of \<^verbatim>\<open>_wait_for_health\<close>, the same in both variants but for the timeout. The
  second argument and the second component of the result are \<^verbatim>\<open>shutdown_event\<close>.
\<close>

fun wait_for_health :: "rat \<Rightarrow> bool \<Rightarrow> poll list \<Rightarrow> health \<times> bool" where
  "wait_for_health timeout shut [] = (Polling, shut)"
| "wait_for_health timeout shut (p # ps) =
     (let shut' = (shut \<or> signalled p) in
      if elapsed p < timeout then
        (if shut' then (ShutdownRequested, shut')
         else (case response p of
                 Status code \<Rightarrow>
                   (if code = 200 then (Healthy, shut') else wait_for_health timeout shut' ps)
               | ConnectError \<Rightarrow> wait_for_health timeout shut' ps
               | OtherError m \<Rightarrow> wait_for_health timeout shut' ps))
      else (Unhealthy, shut'))"

text \<open>A turn after which the loop goes on: in time, no shutdown, no answer 200.\<close>

definition keeps_polling :: "rat \<Rightarrow> poll \<Rightarrow> bool" where
  "keeps_polling timeout p =
     (elapsed p < timeout \<and> \<not> signalled p \<and> response p \<noteq> Status 200)"

text \<open>The specification's success condition: some answer with a 2xx status in time.\<close>

definition spec_2xx_in_time :: "rat \<Rightarrow> poll list \<Rightarrow> bool" where
  "spec_2xx_in_time timeout ps =
     list_ex (\<lambda>p. elapsed p < timeout \<and>
        (case response p of Status code \<Rightarrow> 200 \<le> code \<and> code \<le> 299 | _ \<Rightarrow> False)) ps"

definition no_content_polls :: "poll list" where
  "no_content_polls =
     [\<lparr>elapsed = 0, signalled = False, response = Status 204\<rparr>,
      \<lparr>elapsed = 1/2, signalled = False, response = Status 204\<rparr>,
      \<lparr>elapsed = 30, signalled = False, response = Status 204\<rparr>]"

definition third_poll_ok :: "poll list" where
  "third_poll_ok =
     [\<lparr>elapsed = 0, signalled = False, response = ConnectError\<rparr>,
      \<lparr>elapsed = 1/2, signalled = False, response = Status 503\<rparr>,
      \<lparr>elapsed = 1, signalled = False, response = Status 200\<rparr>]"

subsection \<open>Workspace sync (\<^verbatim>\<open>perform_git_sync\<close>, remote variant)\<close>

text \<open>
  What the outside does during the sync: the token sources, whether the repository
  directory exists, and for each git command whether starting or awaiting it raises or
  which exit code it has.
\<close>

record git_env =
  github_app_token :: string
  github_app_credentials :: bool
  generated_token :: "string outcome"
  repo_path_exists :: bool
  git_clone :: "int outcome"
  git_remote_set_url :: "unit outcome"
  git_fetch :: "int outcome"
  git_rebase :: "int outcome"
  rebase_in_progress :: bool
  git_rebase_abort :: "unit outcome"
  git_rev_parse :: "string outcome"

definition generate_github_token :: "git_env \<Rightarrow> string" where
  "generate_github_token g =
     (if github_app_token g \<noteq> [] then github_app_token g
      else if github_app_credentials g
      then (case generated_token g of Raises m \<Rightarrow> [] | Returns t \<Rightarrow> t)
      else [])"

text \<open>The handler \<^verbatim>\<open>except Exception\<close> of the sync: set the latch, return \<open>False\<close>.\<close>

definition sync_error :: "supervisor \<Rightarrow> bool \<times> supervisor" where
  "sync_error s = (False, s\<lparr>git_sync_complete := True\<rparr>)"

text \<open>The \<^verbatim>\<open>try\<close> block of the sync: set-url, fetch, rebase, rev-parse.\<close>

definition fetch_and_rebase :: "git_env \<Rightarrow> string \<Rightarrow> supervisor \<Rightarrow> bool \<times> supervisor" where
  "fetch_and_rebase g github_token s =
     (case (if github_token \<noteq> [] then git_remote_set_url g else Returns ()) of
        Raises m \<Rightarrow> sync_error s
      | Returns u \<Rightarrow>
          (case git_fetch g of
             Raises m \<Rightarrow> sync_error s
           | Returns fetch_code \<Rightarrow>
               (if fetch_code \<noteq> 0 then (False, s)
                else
                  (case git_rebase g of
                     Raises m \<Rightarrow> sync_error s
                   | Returns rebase_code \<Rightarrow>
                       (case (if rebase_code \<noteq> 0 \<and> rebase_in_progress g
                              then git_rebase_abort g else Returns ()) of
                          Raises m \<Rightarrow> sync_error s
                        | Returns u \<Rightarrow>
                            (case git_rev_parse g of
                               Raises m \<Rightarrow> sync_error s
                             | Returns current_sha \<Rightarrow>
                                 (True, s\<lparr>git_sync_complete := True\<rparr>)))))))"

text \<open>
  The clone runs before the \<^verbatim>\<open>try\<close>: an exception there leaves the method (\<open>Raised\<close>).
\<close>

definition perform_git_sync :: "config \<Rightarrow> git_env \<Rightarrow> supervisor \<Rightarrow> bool result \<times> supervisor" where
  "perform_git_sync cfg g s =
     (let github_token = generate_github_token g in
      if \<not> repo_path_exists g then
        (if cfg_repo_owner cfg = [] \<or> cfg_repo_name cfg = []
         then (Done True, s\<lparr>git_sync_complete := True\<rparr>)
         else
           (case git_clone g of
              Raises m \<Rightarrow> (Raised m, s)
            | Returns clone_code \<Rightarrow>
                (if clone_code \<noteq> 0 then (Done False, s\<lparr>git_sync_complete := True\<rparr>)
                 else (case fetch_and_rebase g github_token s of (ok, s') \<Rightarrow> (Done ok, s')))))
      else (case fetch_and_rebase g github_token s of (ok, s') \<Rightarrow> (Done ok, s')))"

definition acme_config :: config where
  "acme_config = \<lparr>sandbox_id = ''sb-1'', session_id = ''sess-1'',
                   control_plane_url = ''https://cp'', control_plane_ws_url = [],
                   sandbox_token = ''secret'', cfg_repo_owner = ''acme'', cfg_repo_name = ''widget''\<rparr>"

definition git_ok :: git_env where
  "git_ok = \<lparr>github_app_token = [], github_app_credentials = False, generated_token = Returns [],
              repo_path_exists = True, git_clone = Returns 0, git_remote_set_url = Returns (),
              git_fetch = Returns 0, git_rebase = Returns 0, rebase_in_progress = False,
              git_rebase_abort = Returns (), git_rev_parse = Returns ''abc''\<rparr>"

definition fetch_fails :: git_env where
  "fetch_fails = git_ok\<lparr>git_fetch := Returns 128\<rparr>"

subsection \<open>Starting the children (remote variant)\<close>

definition MAX_RESTARTS :: nat where
  "MAX_RESTARTS = 5"

definition BACKOFF_BASE :: rat where
  "BACKOFF_BASE = 2"

definition BACKOFF_MAX :: rat where
  "BACKOFF_MAX = 60"

text \<open>
  What the outside does while the agent is started: an exception before the process exists
  (preparing the plugin directory, \<^verbatim>\<open>create_subprocess_exec\<close> itself), and the turns of
  the health loop.
\<close>

record agent_boot =
  agent_spawn_error :: "string option"
  polls :: "poll list"

text \<open>
  \<^verbatim>\<open>start_opencode\<close>: spawn, store the handle, wait for health, set \<^verbatim>\<open>opencode_ready\<close>.
  The errors of the prober leave the method.
\<close>

definition start_opencode :: "agent_boot \<Rightarrow> supervisor \<Rightarrow> unit result \<times> supervisor" where
  "start_opencode b s =
     (case agent_spawn_error b of
        Some m \<Rightarrow> (Raised m, s)
      | None \<Rightarrow>
          (let (h, s1) = spawn Agent s;
               s2 = s1\<lparr>opencode_process := Some h\<rparr>;
               (outcome, shut) = wait_for_health HEALTH_CHECK_TIMEOUT (shutdown_event s2) (polls b);
               s3 = s2\<lparr>shutdown_event := shut\<rparr>
           in (case outcome of
                 Healthy \<Rightarrow> (Done (), emit ReadySet ((emit HealthOk s3)\<lparr>opencode_ready := True\<rparr>))
               | ShutdownRequested \<Rightarrow> (Raised ''Shutdown requested during startup'', s3)
               | Unhealthy \<Rightarrow> (Raised ''OpenCode server failed to become healthy'', s3)
               | Polling \<Rightarrow> (Pending, s3))))"

text \<open>
  What the outside does while the bridge is started: an exception of the spawn, and
  whether the new process has already exited after the 0.5 s pause (with which code).
\<close>

record bridge_boot =
  bridge_spawn_error :: "string option"
  early_exit :: "int option"

text \<open>
  \<^verbatim>\<open>start_bridge\<close>. \<^verbatim>\<open>await self.opencode_ready.wait()\<close> returns only when the latch is
  set; no other task sets it, so with the latch unset the call never returns (\<open>Pending\<close>).
  An early exit is only logged.
\<close>

definition start_bridge :: "config \<Rightarrow> bridge_boot \<Rightarrow> supervisor \<Rightarrow> unit result \<times> supervisor" where
  "start_bridge cfg b s =
     (if control_plane_url cfg = [] then (Done (), s)
      else if \<not> opencode_ready s then (Pending, s)
      else if session_id cfg = [] then (Done (), s)
      else
        (case bridge_spawn_error b of
           Some m \<Rightarrow> (Raised m, s)
         | None \<Rightarrow>
             (let (h, s1) = spawn Bridge s;
                  s2 = s1\<lparr>bridge_process := Some h\<rparr>
              in (Done (), settle (Some h) (early_exit b) s2))))"

text \<open>
  \<^verbatim>\<open>_report_fatal_error\<close>: always logged; posted to the control plane (one attempt, any
  exception swallowed) only if a control-plane URL is configured.
\<close>

definition report_fatal_error :: "config \<Rightarrow> string \<Rightarrow> supervisor \<Rightarrow> supervisor" where
  "report_fatal_error cfg message s =
     (if control_plane_url cfg = [] then emit (Fatal message) s
      else emit (FatalPost message) (emit (Fatal message) s))"

subsection \<open>Monitoring (remote variant, \<^verbatim>\<open>monitor_processes\<close>)\<close>

text \<open>
  One turn of the monitoring loop as the outside determines it: whether the agent has
  exited when the loop looks at it, how a restart of the agent goes, the same for the
  bridge, and whether a signal handler runs before the next loop test.
\<close>

record tick =
  agent_exit :: "int option"
  agent_restart :: agent_boot
  bridge_exit :: "int option"
  bridge_restart :: bridge_boot
  signal :: bool

text \<open>
  How a branch of the loop body ends: fall through, \<^verbatim>\<open>break\<close>, an exception that leaves
  the loop, or a call that does not return.
\<close>

datatype flow = Continue | Break | Abort string | Blocked

definition backoff :: "nat \<Rightarrow> rat" where
  "backoff restarts = min (BACKOFF_BASE ^ restarts) BACKOFF_MAX"

text \<open>The agent branch. The second argument and component is \<^verbatim>\<open>restart_count\<close>.\<close>

definition check_opencode :: "config \<Rightarrow> tick \<Rightarrow> nat \<Rightarrow> supervisor \<Rightarrow> flow \<times> nat \<times> supervisor" where
  "check_opencode cfg t restart_count s =
     (case opencode_process s of
        None \<Rightarrow> (Continue, restart_count, s)
      | Some h \<Rightarrow>
          (case returncode_of s h of
             None \<Rightarrow> (Continue, restart_count, s)
           | Some exit_code \<Rightarrow>
               (let restart_count = restart_count + 1;
                    s1 = emit (ObservedExit Agent exit_code) s
                in if restart_count > MAX_RESTARTS
                   then (Break, restart_count,
                         (report_fatal_error cfg
                            (''OpenCode crashed '' @ str_int (int restart_count) @ '' times, giving up'')
                            s1)\<lparr>shutdown_event := True\<rparr>)
                   else
                     (let s2 = emit (Backoff (backoff restart_count)) s1;
                          s3 = emit ReadyCleared (s2\<lparr>opencode_ready := False\<rparr>)
                      in (case start_opencode (agent_restart t) s3 of
                            (Done u, s4) \<Rightarrow> (Continue, restart_count, s4)
                          | (Raised m, s4) \<Rightarrow> (Abort m, restart_count, s4)
                          | (Pending, s4) \<Rightarrow> (Blocked, restart_count, s4))))))"

text \<open>The bridge branch. The second argument and component is \<^verbatim>\<open>bridge_restart_count\<close>.\<close>

definition check_bridge :: "config \<Rightarrow> tick \<Rightarrow> nat \<Rightarrow> supervisor \<Rightarrow> flow \<times> nat \<times> supervisor" where
  "check_bridge cfg t bridge_restart_count s =
     (case bridge_process s of
        None \<Rightarrow> (Continue, bridge_restart_count, s)
      | Some h \<Rightarrow>
          (case returncode_of s h of
             None \<Rightarrow> (Continue, bridge_restart_count, s)
           | Some exit_code \<Rightarrow>
               (let s1 = emit (ObservedExit Bridge exit_code) s
                in if exit_code = 0
                   then (Break, bridge_restart_count, s1\<lparr>shutdown_event := True\<rparr>)
                   else
                     (let bridge_restart_count = bridge_restart_count + 1
                      in if bridge_restart_count > MAX_RESTARTS
                         then (Break, bridge_restart_count,
                               (report_fatal_error cfg
                                  (''Bridge crashed '' @ str_int (int bridge_restart_count)
                                     @ '' times, giving up'')
                                  s1)\<lparr>shutdown_event := True\<rparr>)
                         else
                           (let s2 = emit (Backoff (backoff bridge_restart_count)) s1
                            in (case start_bridge cfg (bridge_restart t) s2 of
                                  (Done u, s3) \<Rightarrow> (Continue, bridge_restart_count, s3)
                                | (Raised m, s3) \<Rightarrow> (Abort m, bridge_restart_count, s3)
                                | (Pending, s3) \<Rightarrow> (Blocked, bridge_restart_count, s3)))))))"

text \<open>
  The loop \<^verbatim>\<open>while not self.shutdown_event.is_set()\<close>: agent branch, bridge branch, one
  second of sleep. The result carries the two counters. With the recorded turns used up
  and no shutdown requested the loop is still running (\<open>Pending\<close>).
\<close>

fun monitor_loop :: "config \<Rightarrow> tick list \<Rightarrow> nat \<Rightarrow> nat \<Rightarrow> supervisor
    \<Rightarrow> unit result \<times> (nat \<times> nat) \<times> supervisor" where
  "monitor_loop cfg [] restart_count bridge_restart_count s =
     ((if shutdown_event s then Done () else Pending), (restart_count, bridge_restart_count), s)"
| "monitor_loop cfg (t # ts) restart_count bridge_restart_count s =
     (if shutdown_event s then (Done (), (restart_count, bridge_restart_count), s)
      else
        (case check_opencode cfg t restart_count (settle (opencode_process s) (agent_exit t) s) of
           (Break, restart_count', s1) \<Rightarrow> (Done (), (restart_count', bridge_restart_count), s1)
         | (Abort m, restart_count', s1) \<Rightarrow> (Raised m, (restart_count', bridge_restart_count), s1)
         | (Blocked, restart_count', s1) \<Rightarrow> (Pending, (restart_count', bridge_restart_count), s1)
         | (Continue, restart_count', s1) \<Rightarrow>
             (case check_bridge cfg t bridge_restart_count
                     (settle (bridge_process s1) (bridge_exit t) s1) of
                (Break, bridge_restart_count', s2) \<Rightarrow>
                  (Done (), (restart_count', bridge_restart_count'), s2)
              | (Abort m, bridge_restart_count', s2) \<Rightarrow>
                  (Raised m, (restart_count', bridge_restart_count'), s2)
              | (Blocked, bridge_restart_count', s2) \<Rightarrow>
                  (Pending, (restart_count', bridge_restart_count'), s2)
              | (Continue, bridge_restart_count', s2) \<Rightarrow>
                  monitor_loop cfg ts restart_count' bridge_restart_count'
                    (s2\<lparr>shutdown_event := (shutdown_event s2 \<or> signal t)\<rparr>))))"

definition monitor_processes :: "config \<Rightarrow> tick list \<Rightarrow> supervisor
    \<Rightarrow> unit result \<times> (nat \<times> nat) \<times> supervisor" where
  "monitor_processes cfg ts s = monitor_loop cfg ts 0 0 s"

subsection \<open>Shutdown and the main routine (remote variant)\<close>

text \<open>
  How a child reacts to \<^verbatim>\<open>terminate()\<close>: it exits after some seconds with a code, or it
  does not exit.
\<close>

datatype dying = ExitsAfter rat int | Ignores

text \<open>
  \<^verbatim>\<open>asyncio.wait_for(process.wait(), timeout)\<close> after \<^verbatim>\<open>terminate()\<close>: the return code
  if the process exits before the timeout (it is reaped then), \<open>None\<close> for
  \<^verbatim>\<open>TimeoutError\<close>.
\<close>

definition wait_for :: "rat \<Rightarrow> dying \<Rightarrow> int option" where
  "wait_for timeout d =
     (case d of ExitsAfter t c \<Rightarrow> (if t < timeout then Some c else None) | Ignores \<Rightarrow> None)"

text \<open>
  What the outside does during shutdown: whether a child has exited by itself since the
  supervisor last looked, how it reacts to \<^verbatim>\<open>terminate()\<close>, and whether the event loop
  reaps the bridge (after \<^verbatim>\<open>kill()\<close>: with code -9) while \<^verbatim>\<open>shutdown\<close> waits for the
  agent.
\<close>

record shutdown_env =
  bridge_gone :: "int option"
  bridge_dying :: dying
  agent_gone :: "int option"
  agent_dying :: dying
  bridge_late :: "int option"

text \<open>
  \<^verbatim>\<open>shutdown\<close>: the bridge first (wait up to 5 s), then the agent (wait up to 10 s).
  \<^verbatim>\<open>kill()\<close> sends SIGKILL and returns; the return code of a killed process is set only
  when the event loop runs again, which for the bridge is the wait for the agent, and for
  the agent is after \<^verbatim>\<open>shutdown\<close> has returned.
\<close>

definition shutdown :: "shutdown_env \<Rightarrow> supervisor \<Rightarrow> supervisor" where
  "shutdown env s =
     (let s0 = emit ShutdownStart s;
          s1 = settle (bridge_process s0) (bridge_gone env) s0;
          s2 = (case bridge_process s1 of
                  None \<Rightarrow> s1
                | Some h \<Rightarrow>
                    (case returncode_of s1 h of
                       Some c \<Rightarrow> s1
                     | None \<Rightarrow>
                         (let waiting = emit (Waited h 5) (emit (Terminate h) s1)
                          in (case wait_for 5 (bridge_dying env) of
                                Some c \<Rightarrow> emit (Reaped h c) (child_exits h c waiting)
                              | None \<Rightarrow> emit (Kill h) waiting))));
          s3 = settle (opencode_process s2) (agent_gone env) s2;
          s4 = (case opencode_process s3 of
                  None \<Rightarrow> s3
                | Some h \<Rightarrow>
                    (case returncode_of s3 h of
                       Some c \<Rightarrow> s3
                     | None \<Rightarrow>
                         (let waiting = settle (bridge_process s3) (bridge_late env)
                                          (emit (Waited h 10) (emit (Terminate h) s3))
                          in (case wait_for 10 (agent_dying env) of
                                Some c \<Rightarrow> emit (Reaped h c) (child_exits h c waiting)
                              | None \<Rightarrow> emit (Kill h) waiting))))
      in emit ShutdownComplete s4)"

text \<open>Everything the outside does during one run of the supervisor.\<close>

record world =
  git :: git_env
  first_agent :: agent_boot
  first_bridge :: bridge_boot
  startup_signal :: bool
  ticks :: "tick list"
  stopping :: shutdown_env

text \<open>
  The \<^verbatim>\<open>try\<close> block of \<^verbatim>\<open>run\<close>. Phases 2 and 3 (git identity, setup script) catch
  their own exceptions and do not touch the supervisor's state. \<open>startup_signal\<close> is a
  signal handled between the start of the bridge and the first loop test.
\<close>

definition startup_and_monitor :: "config \<Rightarrow> world \<Rightarrow> supervisor \<Rightarrow> unit result \<times> supervisor" where
  "startup_and_monitor cfg w s =
     (case perform_git_sync cfg (git w) s of
        (Raised m, s1) \<Rightarrow> (Raised m, s1)
      | (Pending, s1) \<Rightarrow> (Pending, s1)
      | (Done git_sync_success, s1) \<Rightarrow>
          (case start_opencode (first_agent w) s1 of
             (Raised m, s2) \<Rightarrow> (Raised m, s2)
           | (Pending, s2) \<Rightarrow> (Pending, s2)
           | (Done u, s2) \<Rightarrow>
               (case start_bridge cfg (first_bridge w) s2 of
                  (Raised m, s3) \<Rightarrow> (Raised m, s3)
                | (Pending, s3) \<Rightarrow> (Pending, s3)
                | (Done u, s3) \<Rightarrow>
                    (case monitor_processes cfg (ticks w)
                            (s3\<lparr>shutdown_event := (shutdown_event s3 \<or> startup_signal w)\<rparr>) of
                       (r, counters, s4) \<Rightarrow> (r, s4)))))"

text \<open>
  \<^verbatim>\<open>run\<close>: the \<^verbatim>\<open>try\<close> block, the handler (report the fatal error) and the
  \<^verbatim>\<open>finally\<close> (shutdown). \<open>Done\<close> means that \<^verbatim>\<open>run\<close> has returned.
\<close>

definition run :: "config \<Rightarrow> world \<Rightarrow> unit result \<times> supervisor" where
  "run cfg w =
     (case startup_and_monitor cfg w init of
        (Done u, s) \<Rightarrow> (Done (), shutdown (stopping w) s)
      | (Raised m, s) \<Rightarrow> (Done (), shutdown (stopping w) (report_fatal_error cfg m s))
      | (Pending, s) \<Rightarrow> (Pending, s))"

subsection \<open>The local-mount variant (package \<^verbatim>\<open>sandbox\<close>)\<close>

text \<open>
  \<^verbatim>\<open>start_opencode\<close> of the local variant: installing the tools may raise before the
  process exists; the deadline of the prober is 60 s.
\<close>

definition start_opencode_local :: "agent_boot \<Rightarrow> supervisor \<Rightarrow> unit result \<times> supervisor" where
  "start_opencode_local b s =
     (case agent_spawn_error b of
        Some m \<Rightarrow> (Raised m, s)
      | None \<Rightarrow>
          (let (h, s1) = spawn Agent s;
               s2 = s1\<lparr>opencode_process := Some h\<rparr>;
               (outcome, shut) =
                  wait_for_health HEALTH_CHECK_TIMEOUT_local (shutdown_event s2) (polls b);
               s3 = s2\<lparr>shutdown_event := shut\<rparr>
           in (case outcome of
                 Healthy \<Rightarrow> (Done (), emit ReadySet ((emit HealthOk s3)\<lparr>opencode_ready := True\<rparr>))
               | ShutdownRequested \<Rightarrow> (Raised ''Shutdown requested during startup'', s3)
               | Unhealthy \<Rightarrow>
                   (Raised ''OpenCode server failed to become healthy within 60.0s'', s3)
               | Polling \<Rightarrow> (Pending, s3))))"

text \<open>
  \<^verbatim>\<open>start_bridge\<close> of the local variant: the bridge is skipped when there is no websocket
  URL and the control-plane URL or the session id is missing.
\<close>

definition start_bridge_local :: "config \<Rightarrow> bridge_boot \<Rightarrow> supervisor \<Rightarrow> unit result \<times> supervisor" where
  "start_bridge_local cfg b s =
     (if control_plane_ws_url cfg = [] \<and> (control_plane_url cfg = [] \<or> session_id cfg = [])
      then (Done (), s)
      else if \<not> opencode_ready s then (Pending, s)
      else
        (case bridge_spawn_error b of
           Some m \<Rightarrow> (Raised m, s)
         | None \<Rightarrow>
             (let (h, s1) = spawn Bridge s;
                  s2 = s1\<lparr>bridge_process := Some h\<rparr>
              in (Done (), settle (Some h) (early_exit b) s2))))"

text \<open>
  The agent branch of the local loop: past \<^verbatim>\<open>MAX_RESTARTS\<close> it logs and breaks; it
  neither reports a fatal error nor sets \<^verbatim>\<open>shutdown_event\<close>.
\<close>

definition check_opencode_local :: "tick \<Rightarrow> nat \<Rightarrow> supervisor \<Rightarrow> flow \<times> nat \<times> supervisor" where
  "check_opencode_local t opencode_restarts s =
     (case opencode_process s of
        None \<Rightarrow> (Continue, opencode_restarts, s)
      | Some h \<Rightarrow>
          (case returncode_of s h of
             None \<Rightarrow> (Continue, opencode_restarts, s)
           | Some exit_code \<Rightarrow>
               (let opencode_restarts = opencode_restarts + 1;
                    s1 = emit (ObservedExit Agent exit_code) s
                in if opencode_restarts > MAX_RESTARTS then (Break, opencode_restarts, s1)
                   else
                     (let s2 = emit (Backoff (backoff opencode_restarts)) s1;
                          s3 = emit ReadyCleared (s2\<lparr>opencode_ready := False\<rparr>)
                      in (case start_opencode_local (agent_restart t) s3 of
                            (Done u, s4) \<Rightarrow> (Continue, opencode_restarts, s4)
                          | (Raised m, s4) \<Rightarrow> (Abort m, opencode_restarts, s4)
                          | (Pending, s4) \<Rightarrow> (Blocked, opencode_restarts, s4))))))"

text \<open>The bridge branch of the local loop: the exit code is not looked at.\<close>

definition check_bridge_local :: "config \<Rightarrow> tick \<Rightarrow> nat \<Rightarrow> supervisor \<Rightarrow> flow \<times> nat \<times> supervisor" where
  "check_bridge_local cfg t bridge_restarts s =
     (case bridge_process s of
        None \<Rightarrow> (Continue, bridge_restarts, s)
      | Some h \<Rightarrow>
          (case returncode_of s h of
             None \<Rightarrow> (Continue, bridge_restarts, s)
           | Some exit_code \<Rightarrow>
               (let bridge_restarts = bridge_restarts + 1;
                    s1 = emit (ObservedExit Bridge exit_code) s
                in if bridge_restarts > MAX_RESTARTS then (Break, bridge_restarts, s1)
                   else
                     (let s2 = emit (Backoff (backoff bridge_restarts)) s1
                      in (case start_bridge_local cfg (bridge_restart t) s2 of
                            (Done u, s3) \<Rightarrow> (Continue, bridge_restarts, s3)
                          | (Raised m, s3) \<Rightarrow> (Abort m, bridge_restarts, s3)
                          | (Pending, s3) \<Rightarrow> (Blocked, bridge_restarts, s3))))))"

text \<open>
  The local loop sleeps one second at the start of the body; a signal handled at any time
  during a turn is seen by the next loop test (and by the prober, through its own turns).
\<close>

fun monitor_loop_local :: "config \<Rightarrow> tick list \<Rightarrow> nat \<Rightarrow> nat \<Rightarrow> supervisor
    \<Rightarrow> unit result \<times> (nat \<times> nat) \<times> supervisor" where
  "monitor_loop_local cfg [] opencode_restarts bridge_restarts s =
     ((if shutdown_event s then Done () else Pending), (opencode_restarts, bridge_restarts), s)"
| "monitor_loop_local cfg (t # ts) opencode_restarts bridge_restarts s =
     (if shutdown_event s then (Done (), (opencode_restarts, bridge_restarts), s)
      else
        (case check_opencode_local t opencode_restarts
                (settle (opencode_process s) (agent_exit t) s) of
           (Break, opencode_restarts', s1) \<Rightarrow> (Done (), (opencode_restarts', bridge_restarts), s1)
         | (Abort m, opencode_restarts', s1) \<Rightarrow> (Raised m, (opencode_restarts', bridge_restarts), s1)
         | (Blocked, opencode_restarts', s1) \<Rightarrow> (Pending, (opencode_restarts', bridge_restarts), s1)
         | (Continue, opencode_restarts', s1) \<Rightarrow>
             (case check_bridge_local cfg t bridge_restarts
                     (settle (bridge_process s1) (bridge_exit t) s1) of
                (Break, bridge_restarts', s2) \<Rightarrow>
                  (Done (), (opencode_restarts', bridge_restarts'), s2)
              | (Abort m, bridge_restarts', s2) \<Rightarrow>
                  (Raised m, (opencode_restarts', bridge_restarts'), s2)
              | (Blocked, bridge_restarts', s2) \<Rightarrow>
                  (Pending, (opencode_restarts', bridge_restarts'), s2)
              | (Continue, bridge_restarts', s2) \<Rightarrow>
                  monitor_loop_local cfg ts opencode_restarts' bridge_restarts'
                    (s2\<lparr>shutdown_event := (shutdown_event s2 \<or> signal t)\<rparr>))))"

definition monitor_processes_local :: "config \<Rightarrow> tick list \<Rightarrow> supervisor
    \<Rightarrow> unit result \<times> (nat \<times> nat) \<times> supervisor" where
  "monitor_processes_local cfg ts s = monitor_loop_local cfg ts 0 0 s"

text \<open>
  What the outside does during a run of the local variant: whether \<^verbatim>\<open>/workspace/.git\<close>
  exists, whether the setup phase raises (the timeout is parsed outside its \<^verbatim>\<open>try\<close>),
  and the rest as for the remote variant.
\<close>

record local_world =
  workspace_is_git :: bool
  setup_script :: "unit outcome"
  local_agent :: agent_boot
  local_bridge :: bridge_boot
  local_startup_signal :: bool
  local_ticks :: "tick list"
  local_stopping :: shutdown_env

text \<open>
  \<^verbatim>\<open>run\<close> of the local variant. A missing \<^verbatim>\<open>.git\<close> returns from inside the \<^verbatim>\<open>try\<close>;
  the handler only logs; the \<^verbatim>\<open>finally\<close> runs \<^verbatim>\<open>shutdown\<close>, whose text is the same as
  in the remote variant.
\<close>

definition startup_and_monitor_local :: "config \<Rightarrow> local_world \<Rightarrow> supervisor
    \<Rightarrow> unit result \<times> supervisor" where
  "startup_and_monitor_local cfg w s =
     (if \<not> workspace_is_git w then (Done (), s)
      else
        (case setup_script w of
           Raises m \<Rightarrow> (Raised m, s)
         | Returns u \<Rightarrow>
             (case start_opencode_local (local_agent w) s of
                (Raised m, s2) \<Rightarrow> (Raised m, s2)
              | (Pending, s2) \<Rightarrow> (Pending, s2)
              | (Done u, s2) \<Rightarrow>
                  (case start_bridge_local cfg (local_bridge w) s2 of
                     (Raised m, s3) \<Rightarrow> (Raised m, s3)
                   | (Pending, s3) \<Rightarrow> (Pending, s3)
                   | (Done u, s3) \<Rightarrow>
                       (case monitor_processes_local cfg (local_ticks w)
                               (s3\<lparr>shutdown_event := (shutdown_event s3 \<or> local_startup_signal w)\<rparr>) of
                          (r, counters, s4) \<Rightarrow> (r, s4))))))"

definition run_local :: "config \<Rightarrow> local_world \<Rightarrow> unit result \<times> supervisor" where
  "run_local cfg w =
     (case startup_and_monitor_local cfg w init of
        (Done u, s) \<Rightarrow> (Done (), shutdown (local_stopping w) s)
      | (Raised m, s) \<Rightarrow> (Done (), shutdown (local_stopping w) s)
      | (Pending, s) \<Rightarrow> (Pending, s))"

subsection \<open>Reading a trace\<close>

fun is_spawn :: "child \<Rightarrow> event \<Rightarrow> bool" where
  "is_spawn k (Spawned k' h) = (k = k')"
| "is_spawn k e = False"

definition spawns :: "child \<Rightarrow> event list \<Rightarrow> nat" where
  "spawns k es = length (filter (is_spawn k) es)"

fun is_fatal :: "event \<Rightarrow> bool" where
  "is_fatal (Fatal m) = True"
| "is_fatal e = False"

text \<open>
  The two facts a bridge spawn depends on, read off the trace: whether the health probe of
  the most recently spawned agent has succeeded, and whether the latch is set.
\<close>

fun latch_step :: "bool \<times> bool \<Rightarrow> event \<Rightarrow> bool \<times> bool" where
  "latch_step (probed, ready) (Spawned Agent h) = (False, ready)"
| "latch_step (probed, ready) HealthOk = (True, ready)"
| "latch_step (probed, ready) ReadySet = (probed, True)"
| "latch_step (probed, ready) ReadyCleared = (probed, False)"
| "latch_step (probed, ready) e = (probed, ready)"

text \<open>Every bridge spawn of the trace happens with the probe succeeded and the latch set.\<close>

fun bridge_after_ready :: "bool \<times> bool \<Rightarrow> event list \<Rightarrow> bool" where
  "bridge_after_ready st [] = True"
| "bridge_after_ready st (e # es) =
     ((if is_spawn Bridge e then fst st \<and> snd st else True)
      \<and> bridge_after_ready (latch_step st e) es)"

text \<open>
  The events of stopping one child, given its handle, the return code found, the timeout of
  the wait and how the child reacts: nothing for a child that is absent or has exited;
  otherwise terminate, wait up to the timeout, and kill if the wait timed out.
\<close>

fun stop_events :: "nat option \<Rightarrow> int option \<Rightarrow> rat \<Rightarrow> dying \<Rightarrow> event list" where
  "stop_events None found timeout d = []"
| "stop_events (Some h) (Some c) timeout d = []"
| "stop_events (Some h) None timeout d =
     [Terminate h, Waited h timeout]
     @ (case wait_for timeout d of Some c \<Rightarrow> [Reaped h c] | None \<Rightarrow> [Kill h])"

text \<open>Every process that still runs is held by one of the two handles.\<close>

definition held :: "supervisor \<Rightarrow> bool" where
  "held s =
     (\<forall>h < length (processes s). returncode (processes s ! h) = None \<longrightarrow>
        opencode_process s = Some h \<or> bridge_process s = Some h)"

text \<open>Every process has its return code set or has been sent SIGKILL.\<close>

definition reaped_or_killed :: "supervisor \<Rightarrow> bool" where
  "reaped_or_killed s =
     (\<forall>h < length (processes s). returncode (processes s ! h) \<noteq> None \<or> Kill h \<in> set (trace s))"

subsection \<open>Recorded behaviours used as examples\<close>

definition healthy_boot :: agent_boot where
  "healthy_boot = \<lparr>agent_spawn_error = None, polls = third_poll_ok\<rparr>"

definition bridge_stays :: bridge_boot where
  "bridge_stays = \<lparr>bridge_spawn_error = None, early_exit = None\<rparr>"

definition quiet_tick :: tick where
  "quiet_tick = \<lparr>agent_exit = None, agent_restart = healthy_boot, bridge_exit = None,
                  bridge_restart = bridge_stays, signal = False\<rparr>"

definition prompt_stop :: shutdown_env where
  "prompt_stop = \<lparr>bridge_gone = None, bridge_dying = ExitsAfter 1 0, agent_gone = None,
                   agent_dying = ExitsAfter 1 0, bridge_late = None\<rparr>"

text \<open>The bridge exits with code 0 during the second turn of monitoring.\<close>

definition bridge_done_ticks :: "tick list" where
  "bridge_done_ticks = [quiet_tick, quiet_tick\<lparr>bridge_exit := Some 0\<rparr>, quiet_tick]"

definition bridge_done_world :: world where
  "bridge_done_world = \<lparr>git = git_ok, first_agent = healthy_boot, first_bridge = bridge_stays,
       startup_signal = False, ticks = bridge_done_ticks, stopping = prompt_stop\<rparr>"

definition bridge_done_local :: local_world where
  "bridge_done_local = \<lparr>workspace_is_git = True, setup_script = Returns (),
       local_agent = healthy_boot, local_bridge = bridge_stays, local_startup_signal = False,
       local_ticks = bridge_done_ticks, local_stopping = prompt_stop\<rparr>"

text \<open>The agent exits with code 1 in every turn, six times, and passes every health probe.\<close>

definition agent_flaps_ticks :: "tick list" where
  "agent_flaps_ticks = replicate 6 (quiet_tick\<lparr>agent_exit := Some 1\<rparr>)"

definition agent_flaps_world :: world where
  "agent_flaps_world = \<lparr>git = git_ok, first_agent = healthy_boot, first_bridge = bridge_stays,
       startup_signal = False, ticks = agent_flaps_ticks, stopping = prompt_stop\<rparr>"

definition agent_flaps_local :: local_world where
  "agent_flaps_local = \<lparr>workspace_is_git = True, setup_script = Returns (),
       local_agent = healthy_boot, local_bridge = bridge_stays, local_startup_signal = False,
       local_ticks = agent_flaps_ticks, local_stopping = prompt_stop\<rparr>"

text \<open>A signal arrives in the first turn; at shutdown the agent ignores SIGTERM for 10 s.\<close>

definition stubborn_agent_world :: world where
  "stubborn_agent_world = \<lparr>git = git_ok, first_agent = healthy_boot, first_bridge = bridge_stays,
       startup_signal = False, ticks = [quiet_tick\<lparr>signal := True\<rparr>],
       stopping = prompt_stop\<lparr>agent_dying := Ignores\<rparr>\<rparr>"

text \<open>
  A signal arrives in the first turn; after SIGTERM each child takes 7 s to exit, and the
  event loop reaps the killed bridge while the agent is waited for.
\<close>

definition slow_children_world :: world where
  "slow_children_world = \<lparr>git = git_ok, first_agent = healthy_boot, first_bridge = bridge_stays,
       startup_signal = False, ticks = [quiet_tick\<lparr>signal := True\<rparr>],
       stopping = \<lparr>bridge_gone = None, bridge_dying = ExitsAfter 7 0, agent_gone = None,
                    agent_dying = ExitsAfter 7 0, bridge_late = Some (- 9)\<rparr>\<rparr>"

text \<open>
  The state agrees with the trace: the bridge spawns of the trace are in order, and when the
  latch \<^verbatim>\<open>opencode_ready\<close> is set in the state, the trace says that the latest agent's
  probe has succeeded and the latch is set.
\<close>

definition latch_agrees :: "supervisor \<Rightarrow> bool" where
  "latch_agrees s =
     (bridge_after_ready (False, False) (trace s)
      \<and> (if opencode_ready s then foldl latch_step (False, False) (trace s) = (True, True)
         else True))"

text \<open>
  One of the two blocks of \<^verbatim>\<open>shutdown\<close>, for one handle: what the outside did to the
  child before, then \<^verbatim>\<open>terminate\<close>, the wait with its timeout (during which the outside
  may settle another handle), and \<^verbatim>\<open>kill\<close> on timeout.
\<close>

definition stop_child :: "nat option \<Rightarrow> int option \<Rightarrow> rat \<Rightarrow> dying \<Rightarrow> nat option \<Rightarrow> int option
    \<Rightarrow> supervisor \<Rightarrow> supervisor" where
  "stop_child handle gone timeout d other late s =
     (let s1 = settle handle gone s in
      case handle of
        None \<Rightarrow> s1
      | Some h \<Rightarrow>
          (case returncode_of s1 h of
             Some c \<Rightarrow> s1
           | None \<Rightarrow>
               (let waiting = settle other late (emit (Waited h timeout) (emit (Terminate h) s1))
                in (case wait_for timeout d of
                      Some c \<Rightarrow> emit (Reaped h c) (child_exits h c waiting)
                    | None \<Rightarrow> emit (Kill h) waiting))))"

text \<open>The return code the monitoring loop finds behind a handle, if any.\<close>

definition exit_seen :: "nat option \<Rightarrow> supervisor \<Rightarrow> int option" where
  "exit_seen handle s = (case handle of None \<Rightarrow> None | Some h \<Rightarrow> returncode_of s h)"

text \<open>The supervisor after a clean startup: agent and bridge running, nothing requested.\<close>

definition started :: supervisor where
  "started = snd (start_bridge acme_config bridge_stays (snd (start_opencode healthy_boot init)))"

text \<open>After a clean startup the bridge has exited with code 1, or the agent with code 137.\<close>

definition bridge_crashed :: supervisor where
  "bridge_crashed = settle (bridge_process started) (Some 1) started"

definition agent_crashed :: supervisor where
  "agent_crashed = settle (opencode_process started) (Some 137) started"

text \<open>The agent never answers 200: the probe runs into its deadline during startup.\<close>

definition unhealthy_world :: world where
  "unhealthy_world = \<lparr>git = git_ok,
       first_agent = \<lparr>agent_spawn_error = None, polls = no_content_polls\<rparr>,
       first_bridge = bridge_stays, startup_signal = False, ticks = [], stopping = prompt_stop\<rparr>"


section \<open>Properties of the Callback Client\<close>

lemma fresh_tokens_try_attempt:
  "fresh_tokens (snd (try_attempt e url body) @ evs) = fresh_tokens evs"
  by (auto simp: try_attempt_def split: outcome.splits)

lemma fresh_tokens_retry_loop: "fresh_tokens (snd (retry_loop env url body ks))"
proof (induction ks)
  case Nil
  show ?case by simp
next
  case (Cons k ks)
  have now: "fresh_tokens (snd (try_attempt (env k) url body))"
    using fresh_tokens_try_attempt [of "env k" url body "[]"] by simp
  show ?case
    using Cons now fresh_tokens_try_attempt [of "env k" url body]
    by (cases "try_attempt (env k) url body") (auto simp: Let_def split: bool.splits)
qed

lemma try_attempt_mint_raises:
  "mint_raises e \<Longrightarrow> try_attempt e url body = (False, [Mint (mint e)])"
  by (auto simp: try_attempt_def split: outcome.splits)

lemma posts_try_attempt: "length (posts (snd (try_attempt e url body))) \<le> 1"
  by (auto simp: try_attempt_def posts_def split: outcome.splits)

lemma posts_retry_loop: "length (posts (snd (retry_loop env url body ks))) \<le> length ks"
proof (induction ks)
  case Nil
  show ?case by (simp add: posts_def)
next
  case (Cons k ks)
  have one: "length (filter is_post (snd (try_attempt (env k) url body))) \<le> 1"
    using posts_try_attempt [of "env k" url body] by (simp add: posts_def)
  show ?case
    using Cons one
    by (cases "try_attempt (env k) url body") (auto simp: Let_def posts_def split: bool.splits)
qed

lemma callback_at_most_three_posts:
  "length (posts (snd (callback_with_retry env url body))) \<le> 3"
  using posts_retry_loop [of env url body "[0..<CALLBACK_MAX_RETRIES]"]
  by (simp add: callback_with_retry_def CALLBACK_MAX_RETRIES_def)

lemma sleeps_try_attempt: "sleeps (snd (try_attempt e url body) @ evs) = sleeps evs"
  by (auto simp: try_attempt_def split: outcome.splits)

lemma upt3: "[0..<3] = [0, Suc 0, 2]" by (simp add: upt_rec numeral_3_eq_3)
 
lemma sleeps_append: "sleeps (xs @ ys) = sleeps xs @ sleeps ys"
  by (induction xs rule: sleeps.induct) simp_all

lemma sleeps_try_attempt_nil: "sleeps (snd (try_attempt e url body)) = []"
  by (auto simp: try_attempt_def split: outcome.splits)

lemma callback_sleeps:
  "sleeps (snd (callback_with_retry env url body)) \<in> {[], [2], [2, 4]}"
proof -
  obtain b0 e0 where t0: "try_attempt (env 0) url body = (b0, e0)" by (cases "try_attempt (env 0) url body")
  obtain b1 e1 where t1: "try_attempt (env (Suc 0)) url body = (b1, e1)" by (cases "try_attempt (env (Suc 0)) url body")
  obtain b2 e2 where t2: "try_attempt (env 2) url body = (b2, e2)" by (cases "try_attempt (env 2) url body")
  have s0: "sleeps e0 = []" using sleeps_try_attempt_nil [of "env 0" url body] t0 by simp
  have s1: "sleeps e1 = []" using sleeps_try_attempt_nil [of "env (Suc 0)" url body] t1 by simp
  have s2: "sleeps e2 = []" using sleeps_try_attempt_nil [of "env 2" url body] t2 by simp
  show ?thesis
    by (cases b0; cases b1; cases b2)
       (simp_all add: callback_with_retry_def CALLBACK_MAX_RETRIES_def CALLBACK_BACKOFF_BASE_def
          upt3 Let_def t0 t1 t2 s0 s1 s2 sleeps_append)
qed

text \<open>
  Claim C10. The bearer token is minted inside the retry loop, once per attempt, and every
  request carries the token minted just before it. An exception of the token issuer lands
  in the handler: that attempt fails without an HTTP request. If the issuer raises on all
  three attempts, the client sends no request at all and returns \<open>False\<close>; it sleeps 2 s
  and 4 s between the attempts.
\<close>

theorem issuer_failure_is_failed_attempt: "(mint_raises e \<longrightarrow> try_attempt e url body = (False, [Mint (mint e)]))
   \<and> fresh_tokens (snd (callback_with_retry env url body))
   \<and> ((\<forall>k < CALLBACK_MAX_RETRIES. mint_raises (env k)) \<longrightarrow>
         fst (callback_with_retry env url body) = False
       \<and> posts (snd (callback_with_retry env url body)) = []
       \<and> snd (callback_with_retry env url body) =
           [Mint (mint (env 0)), Sleep 2, Mint (mint (env 1)), Sleep 4, Mint (mint (env 2))])"
proof (intro conjI impI)
  assume "mint_raises e"
  then show "try_attempt e url body = (False, [Mint (mint e)])"
    by (rule try_attempt_mint_raises)
next
  show "fresh_tokens (snd (callback_with_retry env url body))"
    by (simp add: callback_with_retry_def fresh_tokens_retry_loop)
next
  assume all: "\<forall>k < CALLBACK_MAX_RETRIES. mint_raises (env k)"
  then have r: "mint_raises (env 0)" "mint_raises (env (Suc 0))" "mint_raises (env 2)"
    by (simp_all add: CALLBACK_MAX_RETRIES_def)
  have run: "callback_with_retry env url body =
      (False, [Mint (mint (env 0)), Sleep 2, Mint (mint (env 1)), Sleep 4, Mint (mint (env 2))])"
    using r
    by (simp add: callback_with_retry_def CALLBACK_MAX_RETRIES_def CALLBACK_BACKOFF_BASE_def
        upt3 try_attempt_mint_raises Let_def del: mint_raises.simps)
  show "fst (callback_with_retry env url body) = False" by (simp add: run)
  show "posts (snd (callback_with_retry env url body)) = []" by (simp add: run posts_def)
  show "snd (callback_with_retry env url body) =
      [Mint (mint (env 0)), Sleep 2, Mint (mint (env 1)), Sleep 4, Mint (mint (env 2))]"
    by (simp add: run)
qed

theorem issuer_failure_is_failed_attempt_witness:
  "mint_raises (issuer_down 0) \<and> mint_raises (issuer_down 1) \<and> mint_raises (issuer_down 2)
   \<and> try_attempt (issuer_down 0) ''u'' (FailureBody ''b-1'' ''boom'') = (False, [Mint (Raises ''no secret'')])
   \<and> callback_with_retry issuer_down ''u'' (FailureBody ''b-1'' ''boom'') =
       (False, [Mint (Raises ''no secret''), Sleep 2, Mint (Raises ''no secret''), Sleep 4,
                Mint (Raises ''no secret'')])
   \<and> posts (snd (callback_with_retry issuer_down ''u'' (FailureBody ''b-1'' ''boom''))) = []"
proof -
  have h: "\<forall>k < CALLBACK_MAX_RETRIES. mint_raises (issuer_down k)"
    by (simp add: issuer_down_def)
  have h0: "mint_raises (issuer_down 0)"
    by (simp add: issuer_down_def)
  show ?thesis
    using h h0 issuer_failure_is_failed_attempt [of "issuer_down 0" "''u''" "FailureBody ''b-1'' ''boom''" issuer_down]
    by (cases "callback_with_retry issuer_down ''u'' (FailureBody ''b-1'' ''boom'')")
       (simp add: issuer_down_def)
qed

text \<open>
  Claim C2, evaluated at scenario S6 (two answers 503, then 200). The client makes three
  requests and stops; the sleep after the first failure is 2 s, the sleep after the second
  failure is 4 s (\<open>2 ^ (attempt + 1)\<close> with \<open>attempt = 1\<close>), not 8 s; nothing is slept after
  the last attempt.
\<close>

theorem callback_delays_at_s6:
  "callback_with_retry s6_control_plane url body =
     (True, [Mint (Returns ''token''), Post url body ''token'' (Returns 503), Sleep 2,
             Mint (Returns ''token''), Post url body ''token'' (Returns 503), Sleep 4,
             Mint (Returns ''token''), Post url body ''token'' (Returns 200)])
   \<and> sleeps (snd (callback_with_retry s6_control_plane url body)) = [2, 4]
   \<and> sleeps (snd (callback_with_retry s6_control_plane url body)) \<noteq> [2, 8]"
  by (simp add: callback_with_retry_def CALLBACK_MAX_RETRIES_def CALLBACK_BACKOFF_BASE_def
      upt3 try_attempt_def raise_for_status_def s6_control_plane_def Let_def)

section \<open>Properties of the Image Builder\<close>

lemma build_steps_cases:
  "steps_raise env \<Longrightarrow> \<exists>m. build_steps req env = Inl m"
  "before_try env = Returns () \<Longrightarrow> \<not> steps_raise env \<Longrightarrow>
     \<exists>i. snapshot_filesystem env = Returns i \<and>
         build_steps req env = Inr (i, read_sandbox_head_sha env, build_duration env)"
  by (auto simp: steps_raise_def build_steps_def Let_def split: outcome.splits)

lemma build_repo_image_failure:
  "before_try env = Returns () \<Longrightarrow> build_steps req env = Inl m \<Longrightarrow> callback_url req \<noteq> [] \<Longrightarrow>
   build_repo_image req env =
     [Callback (py_replace (callback_url req) ''/build-complete'' ''/build-failed'')
        (FailureBody (build_id req) m)
        (callback_with_retry (control_plane env)
           (py_replace (callback_url req) ''/build-complete'' ''/build-failed'')
           (FailureBody (build_id req) m))]"
  by (simp add: build_repo_image_def try_block_def Let_def)

lemma build_repo_image_success:
  "before_try env = Returns () \<Longrightarrow> build_steps req env = Inr (i, s, d) \<Longrightarrow>
   callback_url req \<noteq> [] \<Longrightarrow>
   build_repo_image req env =
     [Callback (callback_url req) (SuccessBody (build_id req) i s d)
        (callback_with_retry (control_plane env) (callback_url req)
           (SuccessBody (build_id req) i s d))]"
  by (simp add: build_repo_image_def try_block_def)

text \<open>
  Once the \<^verbatim>\<open>try\<close> is reached, exactly one callback is made for a non-empty callback
  URL: the success callback iff no step raised, which is the case iff the snapshot was
  reached and returned an image id, and the failure callback iff a step raised. An
  exception of the installation-token issuer in step 1 is swallowed inside the step.
\<close>

lemma one_callback_when_try_reached:
  assumes url: "callback_url req \<noteq> []" and pre: "before_try env = Returns ()"
  shows "(success_attempted (build_repo_image req env) \<longleftrightarrow> \<not> steps_raise env)
       \<and> (failure_attempted (build_repo_image req env) \<longleftrightarrow> steps_raise env)
       \<and> \<not> (success_attempted (build_repo_image req env) \<and> failure_attempted (build_repo_image req env))
       \<and> length (build_repo_image req env) = 1
       \<and> (\<not> steps_raise env \<longleftrightarrow> (\<exists>i. snapshot_filesystem env = Returns i \<and>
             build_steps req env = Inr (i, read_sandbox_head_sha env, build_duration env)))"
proof (cases "steps_raise env")
  case True
  then obtain m where m: "build_steps req env = Inl m"
    using build_steps_cases(1) by blast
  show ?thesis
    using True m url build_repo_image_failure [OF pre m url]
    by (simp add: success_attempted_def failure_attempted_def)
next
  case False
  then obtain i where i: "snapshot_filesystem env = Returns i"
      "build_steps req env = Inr (i, read_sandbox_head_sha env, build_duration env)"
    using build_steps_cases(2) [OF pre] by blast
  show ?thesis
    using False i url build_repo_image_success [OF pre i(2) url]
    by (simp add: success_attempted_def failure_attempted_def)
qed

text \<open>
  When a statement before the \<^verbatim>\<open>try\<close> raises, the exception leaves the worker and no
  callback is made, whatever the callback URL.
\<close>

lemma no_callback_before_try:
  "before_try env = Raises m \<Longrightarrow>
   build_repo_image req env = [] \<and> build_repo_image_raises env = Some m"
  by (simp add: build_repo_image_def build_repo_image_raises_def)


lemma replace_scan_suffix:
  "old \<noteq> [] \<Longrightarrow> only_at_end base old \<Longrightarrow> replace_scan (base @ old) old new = base @ new"
proof (induction base)
  case Nil
  have "startswith old old" by (induction old) simp_all
  then show ?case using Nil by (simp add: replace_scan.simps [of old] replace_scan.simps [of "[]"])
next
  case (Cons c cs)
  then show ?case by (simp add: replace_scan.simps [of "c # cs @ old"])
qed

lemma posted_to_try_attempt: "list_all (posted_to url body) (snd (try_attempt e url body))"
  by (auto simp: try_attempt_def split: outcome.splits)

lemma posted_to_retry_loop: "list_all (posted_to url body) (snd (retry_loop env url body ks))"
proof (induction ks)
  case Nil
  show ?case by simp
next
  case (Cons k ks)
  show ?case
    using Cons posted_to_try_attempt [of url body "env k"]
    by (cases "try_attempt (env k) url body") (auto simp: Let_def split: bool.splits)
qed

text \<open>
  Claim C8 as stated fails. \<^verbatim>\<open>str.replace\<close> rewrites every occurrence of
  \<open>/build-complete\<close>, not only the suffix: for the callback URL
  \<open>https://cp/build-complete/b-1/build-complete\<close> the failure callback goes to
  \<open>https://cp/build-failed/b-1/build-failed\<close>, while replacing the suffix alone gives
  \<open>https://cp/build-complete/b-1/build-failed\<close>.
\<close>

theorem failure_url_replaces_every_occurrence:
  "map call_url (build_repo_image segment_request s6_env) = [''https://cp/build-failed/b-1/build-failed'']
   \<and> spec_replace_suffix (callback_url segment_request) ''/build-complete'' ''/build-failed''
       = ''https://cp/build-complete/b-1/build-failed''
   \<and> map call_url (build_repo_image segment_request s6_env)
       \<noteq> [spec_replace_suffix (callback_url segment_request) ''/build-complete'' ''/build-failed'']"
  by code_simp

text \<open>
  Claim C8, amended. When a step raises and the callback URL is non-empty, the one callback
  made goes to the callback URL with every occurrence of \<open>/build-complete\<close> replaced by
  \<open>/build-failed\<close>; its body is the build id and the text of the exception, and every
  request of the delivery carries that URL and body. After a non-zero exit code \<open>n\<close> the
  text is \<open>Build sandbox exited with code n\<close>. When the callback URL ends in
  \<open>/build-complete\<close> and contains it nowhere else, the failure URL is the callback URL
  with that suffix replaced and the rest unchanged.
\<close>

theorem failure_callback_shape:
  assumes url: "callback_url req \<noteq> []" and fails: "steps_raise env"
  shows "\<exists>m. build_steps req env = Inl m
     \<and> map call_url (build_repo_image req env) =
          [py_replace (callback_url req) ''/build-complete'' ''/build-failed'']
     \<and> map call_body (build_repo_image req env) = [FailureBody (build_id req) m]
     \<and> list_all (\<lambda>c. list_all (posted_to (call_url c) (call_body c)) (call_effects c))
          (build_repo_image req env)
     \<and> (create_build_sandbox env = Returns () \<and> sandbox_wait env = Returns ()
          \<and> sandbox_returncode env \<noteq> 0 \<longrightarrow>
        m = ''Build sandbox exited with code '' @ str_int (sandbox_returncode env))
     \<and> (\<forall>base. callback_url req = base @ ''/build-complete'' \<and> only_at_end base ''/build-complete'' \<longrightarrow>
          py_replace (callback_url req) ''/build-complete'' ''/build-failed'' = base @ ''/build-failed'')"
proof -
  obtain m where m: "build_steps req env = Inl m"
    using fails build_steps_cases(1) by blast
  have pre: "before_try env = Returns ()"
    using fails by (simp add: steps_raise_def)
  have code: "create_build_sandbox env = Returns () \<and> sandbox_wait env = Returns ()
          \<and> sandbox_returncode env \<noteq> 0 \<longrightarrow>
        m = ''Build sandbox exited with code '' @ str_int (sandbox_returncode env)"
    using m by (auto simp: build_steps_def Let_def)
  have suffix: "\<forall>base. callback_url req = base @ ''/build-complete'' \<and> only_at_end base ''/build-complete'' \<longrightarrow>
          py_replace (callback_url req) ''/build-complete'' ''/build-failed'' = base @ ''/build-failed''"
    using replace_scan_suffix [of "''/build-complete''" _ "''/build-failed''"]
    by (simp add: py_replace_def)
  have posted: "list_all (\<lambda>c. list_all (posted_to (call_url c) (call_body c)) (call_effects c))
          (build_repo_image req env)"
    by (simp add: build_repo_image_failure [OF pre m url] callback_with_retry_def posted_to_retry_loop)
  show ?thesis
    using m code suffix posted by (simp add: build_repo_image_failure [OF pre m url])
qed

theorem failure_callback_shape_witness:
  "map call_url (build_repo_image s6_request s6_env) = [''https://cp/builds/b-1/build-failed'']
   \<and> map call_body (build_repo_image s6_request s6_env)
       = [FailureBody ''b-1'' ''Build sandbox exited with code 7'']"
proof -
  have url: "callback_url s6_request \<noteq> []" by (simp add: s6_request_def)
  have fails: "steps_raise s6_env" by (simp add: steps_raise_def s6_env_def)
  have rc: "create_build_sandbox s6_env = Returns () \<and> sandbox_wait s6_env = Returns ()
      \<and> sandbox_returncode s6_env \<noteq> 0" by (simp add: s6_env_def)
  have seven: "str_int (sandbox_returncode s6_env) = ''7''" by code_simp
  have base: "callback_url s6_request = ''https://cp/builds/b-1'' @ ''/build-complete''
      \<and> only_at_end ''https://cp/builds/b-1'' ''/build-complete''" by code_simp
  have id: "build_id s6_request = ''b-1''" by (simp add: s6_request_def)
  from failure_callback_shape [OF url fails] obtain m where m:
    "map call_url (build_repo_image s6_request s6_env) =
          [py_replace (callback_url s6_request) ''/build-complete'' ''/build-failed'']"
    "map call_body (build_repo_image s6_request s6_env) = [FailureBody (build_id s6_request) m]"
    "create_build_sandbox s6_env = Returns () \<and> sandbox_wait s6_env = Returns ()
          \<and> sandbox_returncode s6_env \<noteq> 0 \<longrightarrow>
        m = ''Build sandbox exited with code '' @ str_int (sandbox_returncode s6_env)"
    "\<forall>base. callback_url s6_request = base @ ''/build-complete'' \<and> only_at_end base ''/build-complete'' \<longrightarrow>
          py_replace (callback_url s6_request) ''/build-complete'' ''/build-failed'' = base @ ''/build-failed''"
    by (elim exE conjE) (rule that; assumption)
  have "m = ''Build sandbox exited with code 7''" using m(3) rc seven by simp
  moreover have "callback_url s6_request = ''https://cp/builds/b-1'' @ ''/build-complete''
      \<and> only_at_end ''https://cp/builds/b-1'' ''/build-complete'' \<longrightarrow>
      py_replace (callback_url s6_request) ''/build-complete'' ''/build-failed''
      = ''https://cp/builds/b-1'' @ ''/build-failed''"
    using m(4) by (rule spec)
  then have "py_replace (callback_url s6_request) ''/build-complete'' ''/build-failed''
      = ''https://cp/builds/b-1'' @ ''/build-failed''"
    using base by (rule mp)
  ultimately show ?thesis using m(1,2) id by simp
qed

section \<open>Properties of the Health Prober and of the workspace sync\<close>

lemma wait_for_health_keeps_polling:
  "list_all (keeps_polling timeout) pre \<Longrightarrow>
   wait_for_health timeout False (pre @ rest) = wait_for_health timeout False rest"
  by (induction pre) (auto simp: keeps_polling_def Let_def split: get_outcome.splits)

lemma healthy_split:
  "wait_for_health timeout shut ps = (Healthy, shut') \<Longrightarrow>
   \<not> shut \<and> \<not> shut' \<and> (\<exists>pre p rest. ps = pre @ p # rest \<and> list_all (keeps_polling timeout) pre
      \<and> elapsed p < timeout \<and> \<not> signalled p \<and> response p = Status 200)"
proof (induction ps arbitrary: shut)
  case Nil
  then show ?case by simp
next
  case (Cons q qs)
  show ?case
  proof (cases "keeps_polling timeout q \<and> \<not> shut")
    case True
    then have "wait_for_health timeout shut qs = (Healthy, shut')"
      using Cons.prems by (auto simp: keeps_polling_def Let_def split: get_outcome.splits if_splits)
    from Cons.IH [OF this] obtain pre p rest where
      "\<not> shut'" "qs = pre @ p # rest" "list_all (keeps_polling timeout) pre"
      "elapsed p < timeout" "\<not> signalled p" "response p = Status 200" by blast
    then have "q # qs = (q # pre) @ p # rest \<and> list_all (keeps_polling timeout) (q # pre)
      \<and> elapsed p < timeout \<and> \<not> signalled p \<and> response p = Status 200"
      using True by simp
    then show ?thesis using True \<open>\<not> shut'\<close> by blast
  next
    case False
    then have "\<not> shut \<and> \<not> shut' \<and> elapsed q < timeout \<and> \<not> signalled q \<and> response q = Status 200"
      using Cons.prems by (auto simp: keeps_polling_def Let_def split: get_outcome.splits if_splits)
    then have "q # qs = [] @ q # qs \<and> list_all (keeps_polling timeout) []
      \<and> elapsed q < timeout \<and> \<not> signalled q \<and> response q = Status 200" by simp
    then show ?thesis using \<open>\<not> shut \<and> \<not> shut' \<and> _\<close> by blast
  qed
qed

text \<open>
  Claim C7 as stated fails. The prober accepts the status 200 only: with every answer a
  204 (a 2xx status, received in time) the loop runs until the deadline and raises.
\<close>

theorem no_content_is_not_healthy:
  "spec_2xx_in_time HEALTH_CHECK_TIMEOUT no_content_polls
   \<and> wait_for_health HEALTH_CHECK_TIMEOUT False no_content_polls = (Unhealthy, False)"
  by (simp add: spec_2xx_in_time_def no_content_polls_def HEALTH_CHECK_TIMEOUT_def)

text \<open>
  Claim C7, amended. The prober returns iff some turn of the loop gets an answer with
  status exactly 200 while, at that turn and at every turn before it, the deadline had not
  expired at the loop test and no shutdown had been requested. If the deadline has expired
  at a loop test before that, it raises the not-healthy error. If a shutdown is requested
  at a loop test inside the deadline, it raises the shutdown error at once, whatever the
  endpoint would have answered and whatever follows.
\<close>

theorem healthy_iff_status_200_in_time:
  "(fst (wait_for_health timeout False ps) = Healthy \<longleftrightarrow>
      (\<exists>pre p rest. ps = pre @ p # rest \<and> list_all (keeps_polling timeout) pre
         \<and> elapsed p < timeout \<and> \<not> signalled p \<and> response p = Status 200))
   \<and> (list_all (keeps_polling timeout) pre \<and> timeout \<le> elapsed p \<longrightarrow>
        fst (wait_for_health timeout False (pre @ p # rest)) = Unhealthy)
   \<and> (list_all (keeps_polling timeout) pre \<and> elapsed p < timeout \<and> signalled p \<longrightarrow>
        wait_for_health timeout False (pre @ p # rest) = (ShutdownRequested, True))
   \<and> (elapsed p < timeout \<longrightarrow> wait_for_health timeout True (p # rest) = (ShutdownRequested, True))"
proof (intro conjI impI iffI)
  assume "fst (wait_for_health timeout False ps) = Healthy"
  then obtain shut' where "wait_for_health timeout False ps = (Healthy, shut')"
    by (cases "wait_for_health timeout False ps") simp
  then show "\<exists>pre p rest. ps = pre @ p # rest \<and> list_all (keeps_polling timeout) pre
         \<and> elapsed p < timeout \<and> \<not> signalled p \<and> response p = Status 200"
    using healthy_split by blast
next
  assume "\<exists>pre p rest. ps = pre @ p # rest \<and> list_all (keeps_polling timeout) pre
         \<and> elapsed p < timeout \<and> \<not> signalled p \<and> response p = Status 200"
  then obtain pre p rest where "ps = pre @ p # rest" "list_all (keeps_polling timeout) pre"
    "elapsed p < timeout \<and> \<not> signalled p \<and> response p = Status 200" by blast
  then show "fst (wait_for_health timeout False ps) = Healthy"
    by (simp add: wait_for_health_keeps_polling)
next
  assume "list_all (keeps_polling timeout) pre \<and> timeout \<le> elapsed p"
  then show "fst (wait_for_health timeout False (pre @ p # rest)) = Unhealthy"
    by (simp add: wait_for_health_keeps_polling Let_def)
next
  assume "list_all (keeps_polling timeout) pre \<and> elapsed p < timeout \<and> signalled p"
  then show "wait_for_health timeout False (pre @ p # rest) = (ShutdownRequested, True)"
    by (simp add: wait_for_health_keeps_polling)
next
  assume "elapsed p < timeout"
  then show "wait_for_health timeout True (p # rest) = (ShutdownRequested, True)"
    by simp
qed


theorem healthy_iff_status_200_in_time_witness:
  "fst (wait_for_health HEALTH_CHECK_TIMEOUT False third_poll_ok) = Healthy
   \<and> fst (wait_for_health HEALTH_CHECK_TIMEOUT False no_content_polls) = Unhealthy
   \<and> wait_for_health HEALTH_CHECK_TIMEOUT True no_content_polls = (ShutdownRequested, True)"
proof -
  let ?p1 = "\<lparr>elapsed = 0, signalled = False, response = Status 204\<rparr>"
  let ?p2 = "\<lparr>elapsed = 1/2, signalled = False, response = Status 204\<rparr>"
  let ?p3 = "\<lparr>elapsed = 30, signalled = False, response = Status 204\<rparr>"
  let ?q1 = "\<lparr>elapsed = 0, signalled = False, response = ConnectError\<rparr>"
  let ?q2 = "\<lparr>elapsed = 1/2, signalled = False, response = Status 503\<rparr>"
  let ?q3 = "\<lparr>elapsed = 1, signalled = False, response = Status 200\<rparr>"
  have quiet: "list_all (keeps_polling HEALTH_CHECK_TIMEOUT) [?p1, ?p2]"
    by (simp add: keeps_polling_def HEALTH_CHECK_TIMEOUT_def)
  have late: "HEALTH_CHECK_TIMEOUT \<le> elapsed ?p3"
    by (simp add: HEALTH_CHECK_TIMEOUT_def)
  have early: "elapsed ?p1 < HEALTH_CHECK_TIMEOUT"
    by (simp add: HEALTH_CHECK_TIMEOUT_def)
  have ok: "\<exists>pre p rest. third_poll_ok = pre @ p # rest
      \<and> list_all (keeps_polling HEALTH_CHECK_TIMEOUT) pre
      \<and> elapsed p < HEALTH_CHECK_TIMEOUT \<and> \<not> signalled p \<and> response p = Status 200"
    by (rule exI [of _ "[?q1, ?q2]"], rule exI [of _ ?q3], rule exI [of _ "[]"])
       (simp add: third_poll_ok_def keeps_polling_def HEALTH_CHECK_TIMEOUT_def)
  note a = healthy_iff_status_200_in_time
    [of HEALTH_CHECK_TIMEOUT third_poll_ok "[?p1, ?p2]" ?p3 "[]"]
  note b = healthy_iff_status_200_in_time
    [of HEALTH_CHECK_TIMEOUT third_poll_ok "[]" ?p1 "[?p2, ?p3]"]
  have one: "fst (wait_for_health HEALTH_CHECK_TIMEOUT False third_poll_ok) = Healthy"
    using a ok by blast
  have two: "fst (wait_for_health HEALTH_CHECK_TIMEOUT False ([?p1, ?p2] @ ?p3 # [])) = Unhealthy"
    using a quiet late by blast
  have three: "wait_for_health HEALTH_CHECK_TIMEOUT True (?p1 # [?p2, ?p3]) = (ShutdownRequested, True)"
    using b early by blast
  show ?thesis
    using one two three by (simp add: no_content_polls_def)
qed

text \<open>
  Claim C9, evaluated where \<^verbatim>\<open>git fetch\<close> exits with code 128 in an existing
  repository. The sync returns \<open>False\<close> and \<^verbatim>\<open>git_sync_complete\<close> is still unset:
  this \<^verbatim>\<open>return False\<close> is the one exit of the method that does not set the latch. A
  successful sync sets it.
\<close>

theorem fetch_failure_leaves_latch_unset:
  "perform_git_sync acme_config fetch_fails init = (Done False, init)
   \<and> git_sync_complete (snd (perform_git_sync acme_config fetch_fails init)) = False
   \<and> git_sync_complete (snd (perform_git_sync acme_config git_ok init)) = True"
  by (simp add: perform_git_sync_def fetch_and_rebase_def generate_github_token_def
      fetch_fails_def git_ok_def acme_config_def init_def)

text \<open>
  Every other way in which the sync returns sets the latch: skipped clone, failed clone,
  an exception inside the \<^verbatim>\<open>try\<close>, failed rebase, success.
\<close>

lemma latch_set_unless_fetch_fails:
  "perform_git_sync cfg g s = (Done ok, s') \<Longrightarrow>
   git_sync_complete s' \<or> git_sync_complete s' = git_sync_complete s \<and> \<not> ok \<and> (\<exists>c. git_fetch g = Returns c \<and> c \<noteq> 0)"
  by (auto simp: perform_git_sync_def fetch_and_rebase_def sync_error_def Let_def
      split: if_splits outcome.splits prod.splits)

section \<open>Properties of the Supervisor\<close>

subsection \<open>The bridge starts after the agent is ready\<close>

lemma bridge_after_ready_append:
  "bridge_after_ready st (es @ es') =
     (bridge_after_ready st es \<and> bridge_after_ready (foldl latch_step st es) es')"
  by (induction es arbitrary: st) auto

lemma settle_fields [simp]:
  "trace (settle h e s) = trace s"
  "opencode_process (settle h e s) = opencode_process s"
  "bridge_process (settle h e s) = bridge_process s"
  "shutdown_event (settle h e s) = shutdown_event s"
  "opencode_ready (settle h e s) = opencode_ready s"
  "length (processes (settle h e s)) = length (processes s)"
  by (auto simp: settle_def child_exits_def split: option.splits)

lemma child_exits_fields [simp]:
  "trace (child_exits h c s) = trace s"
  "opencode_process (child_exits h c s) = opencode_process s"
  "bridge_process (child_exits h c s) = bridge_process s"
  "shutdown_event (child_exits h c s) = shutdown_event s"
  "opencode_ready (child_exits h c s) = opencode_ready s"
  "length (processes (child_exits h c s)) = length (processes s)"
  by (auto simp: child_exits_def)

lemma latch_agrees_child_exits [simp]: "latch_agrees (child_exits h c s) = latch_agrees s"
  by (simp add: latch_agrees_def)

lemma latch_agrees_settle [simp]: "latch_agrees (settle h e s) = latch_agrees s"
  by (simp add: latch_agrees_def)

lemma latch_agrees_start_opencode:
  "latch_agrees s \<Longrightarrow> \<not> opencode_ready s \<Longrightarrow> start_opencode b s = (r, s') \<Longrightarrow> latch_agrees s'"
  by (cases "foldl latch_step (False, False) (trace s)")
     (auto simp: start_opencode_def latch_agrees_def spawn_def emit_def Let_def
        bridge_after_ready_append split: option.splits prod.splits health.splits)

lemma latch_agrees_start_opencode_local:
  "latch_agrees s \<Longrightarrow> \<not> opencode_ready s \<Longrightarrow> start_opencode_local b s = (r, s') \<Longrightarrow> latch_agrees s'"
  by (cases "foldl latch_step (False, False) (trace s)")
     (auto simp: start_opencode_local_def latch_agrees_def spawn_def emit_def Let_def
        bridge_after_ready_append split: option.splits prod.splits health.splits)

lemma latch_agrees_start_bridge:
  "latch_agrees s \<Longrightarrow> start_bridge cfg b s = (r, s') \<Longrightarrow> latch_agrees s'"
  by (auto simp: start_bridge_def latch_agrees_def spawn_def Let_def
        bridge_after_ready_append split: option.splits if_splits)

lemma latch_agrees_start_bridge_local:
  "latch_agrees s \<Longrightarrow> start_bridge_local cfg b s = (r, s') \<Longrightarrow> latch_agrees s'"
  by (auto simp: start_bridge_local_def latch_agrees_def spawn_def Let_def
        bridge_after_ready_append split: option.splits if_splits)

lemma latch_agrees_report [simp]:
  "latch_agrees (report_fatal_error cfg m s) = latch_agrees s"
  by (cases "foldl latch_step (False, False) (trace s)")
     (auto simp: report_fatal_error_def latch_agrees_def emit_def bridge_after_ready_append)

lemma latch_agrees_shutdown_event [simp]:
  "latch_agrees (s\<lparr>shutdown_event := b\<rparr>) = latch_agrees s"
  by (simp add: latch_agrees_def)

lemma latch_agrees_emit [simp]:
  "latch_agrees (emit (ObservedExit k c) s) = latch_agrees s"
  "latch_agrees (emit (Backoff d) s) = latch_agrees s"
  "latch_agrees (emit (Fatal m) s) = latch_agrees s"
  "latch_agrees (emit (FatalPost m) s) = latch_agrees s"
  "latch_agrees (emit ShutdownStart s) = latch_agrees s"
  "latch_agrees (emit (Terminate h) s) = latch_agrees s"
  "latch_agrees (emit (Waited h d) s) = latch_agrees s"
  "latch_agrees (emit (Reaped h c) s) = latch_agrees s"
  "latch_agrees (emit (Kill h) s) = latch_agrees s"
  "latch_agrees (emit ShutdownComplete s) = latch_agrees s"
  by (cases "foldl latch_step (False, False) (trace s)";
      simp add: latch_agrees_def emit_def bridge_after_ready_append)+

lemma latch_agrees_cleared:
  "latch_agrees s \<Longrightarrow> latch_agrees (emit ReadyCleared (s\<lparr>opencode_ready := False\<rparr>))"
  by (auto simp: latch_agrees_def emit_def bridge_after_ready_append)

lemma latch_agrees_check_opencode:
  assumes "latch_agrees s" "check_opencode cfg t n s = (f, n', s')"
  shows "latch_agrees s'"
proof (cases "opencode_process s")
  case None
  then show ?thesis using assms by (simp add: check_opencode_def)
next
  case (Some h)
  show ?thesis
  proof (cases "returncode_of s h")
    case None
    then show ?thesis using assms Some by (simp add: check_opencode_def)
  next
    case (Some c)
    let ?s1 = "emit (ObservedExit Agent c) s"
    have s1: "latch_agrees ?s1" using assms(1) by simp
    show ?thesis
    proof (cases "n + 1 > MAX_RESTARTS")
      case True
      then show ?thesis using assms(2) \<open>opencode_process s = Some h\<close> Some s1
        by (auto simp: check_opencode_def Let_def)
    next
      case False
      let ?s3 = "emit ReadyCleared ((emit (Backoff (backoff (n + 1))) ?s1)\<lparr>opencode_ready := False\<rparr>)"
      have s3: "latch_agrees ?s3" "\<not> opencode_ready ?s3"
        using s1 by (simp_all add: latch_agrees_cleared) (simp add: emit_def)
      obtain r s4 where r: "start_opencode (agent_restart t) ?s3 = (r, s4)"
        by (cases "start_opencode (agent_restart t) ?s3")
      have "latch_agrees s4" using latch_agrees_start_opencode [OF s3 r] .
      moreover have "s' = s4" using assms(2) \<open>opencode_process s = Some h\<close> Some False r
        by (auto simp: check_opencode_def Let_def split: result.splits)
      ultimately show ?thesis by simp
    qed
  qed
qed

lemma latch_agrees_check_opencode_local:
  assumes "latch_agrees s" "check_opencode_local t n s = (f, n', s')"
  shows "latch_agrees s'"
proof (cases "opencode_process s")
  case None
  then show ?thesis using assms by (simp add: check_opencode_local_def)
next
  case (Some h)
  show ?thesis
  proof (cases "returncode_of s h")
    case None
    then show ?thesis using assms Some by (simp add: check_opencode_local_def)
  next
    case (Some c)
    let ?s1 = "emit (ObservedExit Agent c) s"
    have s1: "latch_agrees ?s1" using assms(1) by simp
    show ?thesis
    proof (cases "n + 1 > MAX_RESTARTS")
      case True
      then show ?thesis using assms(2) \<open>opencode_process s = Some h\<close> Some s1
        by (auto simp: check_opencode_local_def Let_def)
    next
      case False
      let ?s3 = "emit ReadyCleared ((emit (Backoff (backoff (n + 1))) ?s1)\<lparr>opencode_ready := False\<rparr>)"
      have s3: "latch_agrees ?s3" "\<not> opencode_ready ?s3"
        using s1 by (simp_all add: latch_agrees_cleared) (simp add: emit_def)
      obtain r s4 where r: "start_opencode_local (agent_restart t) ?s3 = (r, s4)"
        by (cases "start_opencode_local (agent_restart t) ?s3")
      have "latch_agrees s4" using latch_agrees_start_opencode_local [OF s3 r] .
      moreover have "s' = s4" using assms(2) \<open>opencode_process s = Some h\<close> Some False r
        by (auto simp: check_opencode_local_def Let_def split: result.splits)
      ultimately show ?thesis by simp
    qed
  qed
qed

lemma latch_agrees_check_bridge:
  assumes "latch_agrees s" "check_bridge cfg t n s = (f, n', s')"
  shows "latch_agrees s'"
proof (cases "bridge_process s")
  case None
  then show ?thesis using assms by (simp add: check_bridge_def)
next
  case (Some h)
  show ?thesis
  proof (cases "returncode_of s h")
    case None
    then show ?thesis using assms Some by (simp add: check_bridge_def)
  next
    case (Some c)
    let ?s1 = "emit (ObservedExit Bridge c) s"
    have s1: "latch_agrees ?s1" using assms(1) by simp
    show ?thesis
    proof (cases "c = 0 \<or> n + 1 > MAX_RESTARTS")
      case True
      then show ?thesis using assms(2) \<open>bridge_process s = Some h\<close> Some s1
        by (auto simp: check_bridge_def Let_def split: if_splits)
    next
      case False
      let ?s2 = "emit (Backoff (backoff (n + 1))) ?s1"
      have s2: "latch_agrees ?s2" using s1 by simp
      obtain r s3 where r: "start_bridge cfg (bridge_restart t) ?s2 = (r, s3)"
        by (cases "start_bridge cfg (bridge_restart t) ?s2")
      have "latch_agrees s3" using latch_agrees_start_bridge [OF s2 r] .
      moreover have "s' = s3" using assms(2) \<open>bridge_process s = Some h\<close> Some False r
        by (auto simp: check_bridge_def Let_def split: result.splits)
      ultimately show ?thesis by simp
    qed
  qed
qed

lemma latch_agrees_check_bridge_local:
  assumes "latch_agrees s" "check_bridge_local cfg t n s = (f, n', s')"
  shows "latch_agrees s'"
proof (cases "bridge_process s")
  case None
  then show ?thesis using assms by (simp add: check_bridge_local_def)
next
  case (Some h)
  show ?thesis
  proof (cases "returncode_of s h")
    case None
    then show ?thesis using assms Some by (simp add: check_bridge_local_def)
  next
    case (Some c)
    let ?s1 = "emit (ObservedExit Bridge c) s"
    have s1: "latch_agrees ?s1" using assms(1) by simp
    show ?thesis
    proof (cases "n + 1 > MAX_RESTARTS")
      case True
      then show ?thesis using assms(2) \<open>bridge_process s = Some h\<close> Some s1
        by (auto simp: check_bridge_local_def Let_def split: if_splits)
    next
      case False
      let ?s2 = "emit (Backoff (backoff (n + 1))) ?s1"
      have s2: "latch_agrees ?s2" using s1 by simp
      obtain r s3 where r: "start_bridge_local cfg (bridge_restart t) ?s2 = (r, s3)"
        by (cases "start_bridge_local cfg (bridge_restart t) ?s2")
      have "latch_agrees s3" using latch_agrees_start_bridge_local [OF s2 r] .
      moreover have "s' = s3" using assms(2) \<open>bridge_process s = Some h\<close> Some False r
        by (auto simp: check_bridge_local_def Let_def split: result.splits)
      ultimately show ?thesis by simp
    qed
  qed
qed

lemma latch_agrees_monitor_loop:
  "latch_agrees s \<Longrightarrow> monitor_loop cfg ts n m s = (r, c, s') \<Longrightarrow> latch_agrees s'"
proof (induction ts arbitrary: n m s)
  case Nil
  then show ?case by simp
next
  case (Cons t ts)
  show ?case
  proof (cases "shutdown_event s")
    case True
    then show ?thesis using Cons.prems by simp
  next
    case False
    obtain f1 n1 s1 where a: "check_opencode cfg t n (settle (opencode_process s) (agent_exit t) s) = (f1, n1, s1)"
      by (cases "check_opencode cfg t n (settle (opencode_process s) (agent_exit t) s)")
    have s1: "latch_agrees s1" using latch_agrees_check_opencode [OF _ a] Cons.prems(1) by simp
    obtain f2 m2 s2 where b: "check_bridge cfg t m (settle (bridge_process s1) (bridge_exit t) s1) = (f2, m2, s2)"
      by (cases "check_bridge cfg t m (settle (bridge_process s1) (bridge_exit t) s1)")
    have s2: "latch_agrees s2" using latch_agrees_check_bridge [OF _ b] s1 by simp
    show ?thesis
    proof (cases f1)
      case Continue
      show ?thesis
      proof (cases f2)
        case Continue
        have rest: "monitor_loop cfg ts n1 m2 (s2\<lparr>shutdown_event := (shutdown_event s2 \<or> signal t)\<rparr>) = (r, c, s')"
          using Cons.prems(2) False a b \<open>f1 = Continue\<close> Continue by simp
        have "latch_agrees (s2\<lparr>shutdown_event := (shutdown_event s2 \<or> signal t)\<rparr>)"
          using s2 by simp
        then show ?thesis using Cons.IH rest by blast
      qed (use Cons.prems(2) False a b \<open>f1 = Continue\<close> s2 in auto)
    qed (use Cons.prems(2) False a s1 in auto)
  qed
qed

lemma latch_agrees_monitor_loop_local:
  "latch_agrees s \<Longrightarrow> monitor_loop_local cfg ts n m s = (r, c, s') \<Longrightarrow> latch_agrees s'"
proof (induction ts arbitrary: n m s)
  case Nil
  then show ?case by simp
next
  case (Cons t ts)
  show ?case
  proof (cases "shutdown_event s")
    case True
    then show ?thesis using Cons.prems by simp
  next
    case False
    obtain f1 n1 s1 where a: "check_opencode_local t n (settle (opencode_process s) (agent_exit t) s) = (f1, n1, s1)"
      by (cases "check_opencode_local t n (settle (opencode_process s) (agent_exit t) s)")
    have s1: "latch_agrees s1" using latch_agrees_check_opencode_local [OF _ a] Cons.prems(1) by simp
    obtain f2 m2 s2 where b: "check_bridge_local cfg t m (settle (bridge_process s1) (bridge_exit t) s1) = (f2, m2, s2)"
      by (cases "check_bridge_local cfg t m (settle (bridge_process s1) (bridge_exit t) s1)")
    have s2: "latch_agrees s2" using latch_agrees_check_bridge_local [OF _ b] s1 by simp
    show ?thesis
    proof (cases f1)
      case Continue
      show ?thesis
      proof (cases f2)
        case Continue
        have rest: "monitor_loop_local cfg ts n1 m2 (s2\<lparr>shutdown_event := (shutdown_event s2 \<or> signal t)\<rparr>) = (r, c, s')"
          using Cons.prems(2) False a b \<open>f1 = Continue\<close> Continue by simp
        have "latch_agrees (s2\<lparr>shutdown_event := (shutdown_event s2 \<or> signal t)\<rparr>)"
          using s2 by simp
        then show ?thesis using Cons.IH rest by blast
      qed (use Cons.prems(2) False a b \<open>f1 = Continue\<close> s2 in auto)
    qed (use Cons.prems(2) False a s1 in auto)
  qed
qed

lemma perform_git_sync_fields:
  "perform_git_sync cfg g s = (r, s') \<Longrightarrow>
   trace s' = trace s \<and> opencode_ready s' = opencode_ready s \<and> processes s' = processes s
   \<and> opencode_process s' = opencode_process s \<and> bridge_process s' = bridge_process s
   \<and> shutdown_event s' = shutdown_event s"
  by (auto simp: perform_git_sync_def fetch_and_rebase_def sync_error_def Let_def
      split: if_splits outcome.splits prod.splits)

lemma latch_agrees_shutdown [simp]: "latch_agrees (shutdown env s) = latch_agrees s"
  by (simp add: shutdown_def Let_def split: option.splits)

lemma latch_agrees_init: "latch_agrees init"
  by (simp add: latch_agrees_def init_def)

lemma latch_agrees_startup_and_monitor:
  assumes "startup_and_monitor cfg w init = (r, s)"
  shows "latch_agrees s"
proof -
  obtain r1 s1 where g: "perform_git_sync cfg (git w) init = (r1, s1)"
    by (cases "perform_git_sync cfg (git w) init")
  have s1: "latch_agrees s1" "\<not> opencode_ready s1"
    using perform_git_sync_fields [OF g] latch_agrees_init
    by (simp_all add: latch_agrees_def init_def)
  obtain r2 s2 where a: "start_opencode (first_agent w) s1 = (r2, s2)"
    by (cases "start_opencode (first_agent w) s1")
  have s2: "latch_agrees s2" using latch_agrees_start_opencode [OF s1 a] .
  obtain r3 s3 where b: "start_bridge cfg (first_bridge w) s2 = (r3, s3)"
    by (cases "start_bridge cfg (first_bridge w) s2")
  have s3: "latch_agrees s3" using latch_agrees_start_bridge [OF s2 b] .
  obtain r4 c4 s4 where m: "monitor_processes cfg (ticks w)
      (s3\<lparr>shutdown_event := (shutdown_event s3 \<or> startup_signal w)\<rparr>) = (r4, c4, s4)"
    by (cases "monitor_processes cfg (ticks w)
      (s3\<lparr>shutdown_event := (shutdown_event s3 \<or> startup_signal w)\<rparr>)")
  have s4: "latch_agrees s4"
    using latch_agrees_monitor_loop [OF _ m [unfolded monitor_processes_def]] s3 by simp
  show ?thesis
    using assms g a b m s1 s2 s3 s4
    by (auto simp: startup_and_monitor_def split: result.splits)
qed

lemma latch_agrees_startup_and_monitor_local:
  assumes "startup_and_monitor_local cfg w init = (r, s)"
  shows "latch_agrees s"
proof -
  have s1: "latch_agrees init" "\<not> opencode_ready init"
    using latch_agrees_init by (simp_all add: init_def)
  obtain r2 s2 where a: "start_opencode_local (local_agent w) init = (r2, s2)"
    by (cases "start_opencode_local (local_agent w) init")
  have s2: "latch_agrees s2" using latch_agrees_start_opencode_local [OF s1 a] .
  obtain r3 s3 where b: "start_bridge_local cfg (local_bridge w) s2 = (r3, s3)"
    by (cases "start_bridge_local cfg (local_bridge w) s2")
  have s3: "latch_agrees s3" using latch_agrees_start_bridge_local [OF s2 b] .
  obtain r4 c4 s4 where m: "monitor_processes_local cfg (local_ticks w)
      (s3\<lparr>shutdown_event := (shutdown_event s3 \<or> local_startup_signal w)\<rparr>) = (r4, c4, s4)"
    by (cases "monitor_processes_local cfg (local_ticks w)
      (s3\<lparr>shutdown_event := (shutdown_event s3 \<or> local_startup_signal w)\<rparr>)")
  have s4: "latch_agrees s4"
    using latch_agrees_monitor_loop_local [OF _ m [unfolded monitor_processes_local_def]] s3 by simp
  show ?thesis
    using assms a b m s1 s2 s3 s4
    by (auto simp: startup_and_monitor_local_def split: result.splits outcome.splits if_splits)
qed

lemma latch_agrees_run: "latch_agrees (snd (run cfg w))"
proof -
  obtain r s where t: "startup_and_monitor cfg w init = (r, s)"
    by (cases "startup_and_monitor cfg w init")
  show ?thesis
    using latch_agrees_startup_and_monitor [OF t] t
    by (cases r) (simp_all add: run_def)
qed

lemma latch_agrees_run_local: "latch_agrees (snd (run_local cfg w))"
proof -
  obtain r s where t: "startup_and_monitor_local cfg w init = (r, s)"
    by (cases "startup_and_monitor_local cfg w init")
  show ?thesis
    using latch_agrees_startup_and_monitor_local [OF t] t
    by (cases r) (simp_all add: run_local_def)
qed

text \<open>
  Claim C5. In every execution of either variant, finished or not, each spawn of the bridge
  (at startup or at a restart) comes after the health probe of the most recently spawned
  agent has succeeded, and with the latch \<^verbatim>\<open>opencode_ready\<close> set.
\<close>

theorem bridge_spawned_after_agent_ready:
  "bridge_after_ready (False, False) (trace (snd (run cfg w)))
   \<and> bridge_after_ready (False, False) (trace (snd (run_local cfg lw)))"
  using latch_agrees_run [of cfg w] latch_agrees_run_local [of cfg lw]
  by (simp add: latch_agrees_def)

theorem bridge_spawned_after_agent_ready_witness:
  "bridge_after_ready (False, False) (trace (snd (run acme_config bridge_done_world)))
   \<and> spawns Bridge (trace (snd (run acme_config bridge_done_world))) = 1
   \<and> bridge_after_ready (False, False) (trace (snd (run_local acme_config bridge_done_local)))
   \<and> spawns Bridge (trace (snd (run_local acme_config bridge_done_local))) = 2"
proof -
  have a: "spawns Bridge (trace (snd (run acme_config bridge_done_world))) = 1" by code_simp
  have b: "spawns Bridge (trace (snd (run_local acme_config bridge_done_local))) = 2" by code_simp
  show ?thesis
    using bridge_spawned_after_agent_ready [of acme_config bridge_done_world bridge_done_local] a b by simp
qed

subsection \<open>Every running child is held by a handle\<close>

lemma held_init: "held init"
  by (simp add: held_def init_def)

lemma held_child_exits: "held s \<Longrightarrow> held (child_exits h c s)"
  by (auto simp: held_def child_exits_def nth_list_update)

lemma held_settle: "held s \<Longrightarrow> held (settle h e s)"
  by (auto simp: settle_def held_child_exits split: option.splits)

lemma held_emit [simp]: "held (emit e s) = held s"
  by (simp add: held_def emit_def)

lemma held_shutdown_event [simp]: "held (s\<lparr>shutdown_event := b\<rparr>) = held s"
  by (simp add: held_def)

lemma held_opencode_ready [simp]: "held (s\<lparr>opencode_ready := b\<rparr>) = held s"
  by (simp add: held_def)

lemma held_report [simp]: "held (report_fatal_error cfg m s) = held s"
  by (simp add: report_fatal_error_def)

text \<open>The process behind a handle, if there is one, has exited.\<close>

lemma held_spawn_agent:
  assumes "held s" "case opencode_process s of None \<Rightarrow> True | Some h \<Rightarrow> returncode_of s h \<noteq> None"
  shows "held ((snd (spawn Agent s))\<lparr>opencode_process := Some (fst (spawn Agent s))\<rparr>)"
  using assms
  by (auto simp: held_def spawn_def returncode_of_def nth_append split: option.splits if_splits)

lemma held_spawn_bridge:
  assumes "held s" "case bridge_process s of None \<Rightarrow> True | Some h \<Rightarrow> returncode_of s h \<noteq> None"
  shows "held ((snd (spawn Bridge s))\<lparr>bridge_process := Some (fst (spawn Bridge s))\<rparr>)"
  using assms
  by (auto simp: held_def spawn_def returncode_of_def nth_append split: option.splits if_splits)

lemma held_start_opencode:
  assumes "held s" "case opencode_process s of None \<Rightarrow> True | Some h \<Rightarrow> returncode_of s h \<noteq> None"
    "start_opencode b s = (r, s')"
  shows "held s'"
  using held_spawn_agent [OF assms(1,2)] assms(1,3)
  by (auto simp: start_opencode_def Let_def split: option.splits prod.splits health.splits)

lemma held_start_opencode_local:
  assumes "held s" "case opencode_process s of None \<Rightarrow> True | Some h \<Rightarrow> returncode_of s h \<noteq> None"
    "start_opencode_local b s = (r, s')"
  shows "held s'"
  using held_spawn_agent [OF assms(1,2)] assms(1,3)
  by (auto simp: start_opencode_local_def Let_def split: option.splits prod.splits health.splits)

lemma held_start_bridge:
  assumes "held s" "case bridge_process s of None \<Rightarrow> True | Some h \<Rightarrow> returncode_of s h \<noteq> None"
    "start_bridge cfg b s = (r, s')"
  shows "held s'"
  using held_spawn_bridge [OF assms(1,2)] assms(1,3)
  by (auto simp: start_bridge_def Let_def held_settle split: option.splits prod.splits if_splits)

lemma held_start_bridge_local:
  assumes "held s" "case bridge_process s of None \<Rightarrow> True | Some h \<Rightarrow> returncode_of s h \<noteq> None"
    "start_bridge_local cfg b s = (r, s')"
  shows "held s'"
  using held_spawn_bridge [OF assms(1,2)] assms(1,3)
  by (auto simp: start_bridge_local_def Let_def held_settle split: option.splits prod.splits if_splits)

lemma returncode_of_fields [simp]:
  "returncode_of (emit e s) h = returncode_of s h"
  "returncode_of (s\<lparr>opencode_ready := b\<rparr>) h = returncode_of s h"
  "returncode_of (s\<lparr>shutdown_event := b\<rparr>) h = returncode_of s h"
  by (simp_all add: returncode_of_def emit_def)

lemma emit_fields [simp]:
  "trace (emit e s) = trace s @ [e]"
  "opencode_process (emit e s) = opencode_process s"
  "bridge_process (emit e s) = bridge_process s"
  "shutdown_event (emit e s) = shutdown_event s"
  "opencode_ready (emit e s) = opencode_ready s"
  "processes (emit e s) = processes s"
  by (simp_all add: emit_def)

lemma report_fields [simp]:
  "opencode_process (report_fatal_error cfg m s) = opencode_process s"
  "bridge_process (report_fatal_error cfg m s) = bridge_process s"
  "shutdown_event (report_fatal_error cfg m s) = shutdown_event s"
  "opencode_ready (report_fatal_error cfg m s) = opencode_ready s"
  "processes (report_fatal_error cfg m s) = processes s"
  by (simp_all add: report_fatal_error_def)

lemma check_opencode_cases [consumes 1, case_names Idle Exceeded Restart]:
  assumes "check_opencode cfg t n s = (f, n', s')"
  obtains
    (Idle) "f = Continue" "n' = n" "s' = s"
      "case opencode_process s of None \<Rightarrow> True | Some h \<Rightarrow> returncode_of s h = None"
  | (Exceeded) h c where "opencode_process s = Some h" "returncode_of s h = Some c"
      "n' = n + 1" "MAX_RESTARTS < n + 1" "f = Break"
      "s' = (report_fatal_error cfg
               (''OpenCode crashed '' @ str_int (int (n + 1)) @ '' times, giving up'')
               (emit (ObservedExit Agent c) s))\<lparr>shutdown_event := True\<rparr>"
  | (Restart) h c r where "opencode_process s = Some h" "returncode_of s h = Some c"
      "n' = n + 1" "n + 1 \<le> MAX_RESTARTS"
      "start_opencode (agent_restart t)
         (emit ReadyCleared
            ((emit (Backoff (backoff (n + 1))) (emit (ObservedExit Agent c) s))\<lparr>opencode_ready := False\<rparr>))
       = (r, s')"
      "f = (case r of Done u \<Rightarrow> Continue | Raised m \<Rightarrow> Abort m | Pending \<Rightarrow> Blocked)"
proof (cases "opencode_process s")
  case None
  show ?thesis
    by (rule Idle) (use assms None in \<open>simp_all add: check_opencode_def\<close>)
next
  case H: (Some h)
  show ?thesis
  proof (cases "returncode_of s h")
    case None
    show ?thesis
      by (rule Idle) (use assms H None in \<open>simp_all add: check_opencode_def\<close>)
  next
    case C: (Some c)
    show ?thesis
      proof (cases "MAX_RESTARTS < n + 1")
        case True
        show ?thesis
          by (rule Exceeded [of h c]) (use assms H C True in \<open>auto simp: check_opencode_def Let_def\<close>)
      next
        case False
        obtain r s4 where st: "start_opencode (agent_restart t) (emit ReadyCleared
            ((emit (Backoff (backoff (n + 1))) (emit (ObservedExit Agent c) s))\<lparr>opencode_ready := False\<rparr>)) = (r, s4)"
          by (cases "start_opencode (agent_restart t) (emit ReadyCleared
            ((emit (Backoff (backoff (n + 1))) (emit (ObservedExit Agent c) s))\<lparr>opencode_ready := False\<rparr>))")
        show ?thesis
          by (rule Restart [of h c r])
             (use assms H C False st in \<open>auto simp: check_opencode_def Let_def split: result.splits\<close>)
      qed
  qed
qed

lemma check_opencode_local_cases [consumes 1, case_names Idle Exceeded Restart]:
  assumes "check_opencode_local t n s = (f, n', s')"
  obtains
    (Idle) "f = Continue" "n' = n" "s' = s"
      "case opencode_process s of None \<Rightarrow> True | Some h \<Rightarrow> returncode_of s h = None"
  | (Exceeded) h c where "opencode_process s = Some h" "returncode_of s h = Some c"
      "n' = n + 1" "MAX_RESTARTS < n + 1" "f = Break"
      "s' = emit (ObservedExit Agent c) s"
  | (Restart) h c r where "opencode_process s = Some h" "returncode_of s h = Some c"
      "n' = n + 1" "n + 1 \<le> MAX_RESTARTS"
      "start_opencode_local (agent_restart t)
         (emit ReadyCleared
            ((emit (Backoff (backoff (n + 1))) (emit (ObservedExit Agent c) s))\<lparr>opencode_ready := False\<rparr>))
       = (r, s')"
      "f = (case r of Done u \<Rightarrow> Continue | Raised m \<Rightarrow> Abort m | Pending \<Rightarrow> Blocked)"
proof (cases "opencode_process s")
  case None
  show ?thesis
    by (rule Idle) (use assms None in \<open>simp_all add: check_opencode_local_def\<close>)
next
  case H: (Some h)
  show ?thesis
  proof (cases "returncode_of s h")
    case None
    show ?thesis
      by (rule Idle) (use assms H None in \<open>simp_all add: check_opencode_local_def\<close>)
  next
    case C: (Some c)
    show ?thesis
      proof (cases "MAX_RESTARTS < n + 1")
        case True
        show ?thesis
          by (rule Exceeded [of h c]) (use assms H C True in \<open>auto simp: check_opencode_local_def Let_def\<close>)
      next
        case False
        obtain r s4 where st: "start_opencode_local (agent_restart t) (emit ReadyCleared
            ((emit (Backoff (backoff (n + 1))) (emit (ObservedExit Agent c) s))\<lparr>opencode_ready := False\<rparr>)) = (r, s4)"
          by (cases "start_opencode_local (agent_restart t) (emit ReadyCleared
            ((emit (Backoff (backoff (n + 1))) (emit (ObservedExit Agent c) s))\<lparr>opencode_ready := False\<rparr>))")
        show ?thesis
          by (rule Restart [of h c r])
             (use assms H C False st in \<open>auto simp: check_opencode_local_def Let_def split: result.splits\<close>)
      qed
  qed
qed

lemma check_bridge_cases [consumes 1, case_names Idle Graceful Exceeded Restart]:
  assumes "check_bridge cfg t n s = (f, n', s')"
  obtains
    (Idle) "f = Continue" "n' = n" "s' = s"
      "case bridge_process s of None \<Rightarrow> True | Some h \<Rightarrow> returncode_of s h = None"
  | (Graceful) h where "bridge_process s = Some h" "returncode_of s h = Some 0"
      "n' = n" "f = Break" "s' = (emit (ObservedExit Bridge 0) s)\<lparr>shutdown_event := True\<rparr>"
  | (Exceeded) h c where "bridge_process s = Some h" "returncode_of s h = Some c" "c \<noteq> 0"
      "n' = n + 1" "MAX_RESTARTS < n + 1" "f = Break"
      "s' = (report_fatal_error cfg
               (''Bridge crashed '' @ str_int (int (n + 1)) @ '' times, giving up'')
               (emit (ObservedExit Bridge c) s))\<lparr>shutdown_event := True\<rparr>"
  | (Restart) h c r where "bridge_process s = Some h" "returncode_of s h = Some c" "c \<noteq> 0"
      "n' = n + 1" "n + 1 \<le> MAX_RESTARTS"
      "start_bridge cfg (bridge_restart t)
         (emit (Backoff (backoff (n + 1))) (emit (ObservedExit Bridge c) s)) = (r, s')"
      "f = (case r of Done u \<Rightarrow> Continue | Raised m \<Rightarrow> Abort m | Pending \<Rightarrow> Blocked)"
proof (cases "bridge_process s")
  case None
  show ?thesis
    by (rule Idle) (use assms None in \<open>simp_all add: check_bridge_def\<close>)
next
  case H: (Some h)
  show ?thesis
  proof (cases "returncode_of s h")
    case None
    show ?thesis
      by (rule Idle) (use assms H None in \<open>simp_all add: check_bridge_def\<close>)
  next
    case C: (Some c)
    show ?thesis
    proof (cases "c = 0")
      case True
      show ?thesis
        by (rule Graceful [of h]) (use assms H C True in \<open>simp_all add: check_bridge_def Let_def\<close>)
    next
      case nz: False
      show ?thesis
      proof (cases "MAX_RESTARTS < n + 1")
        case True
        show ?thesis
          by (rule Exceeded [of h c]) (use assms H C nz True in \<open>auto simp: check_bridge_def Let_def\<close>)
      next
        case False
        obtain r s4 where st: "start_bridge cfg (bridge_restart t) (emit (Backoff (backoff (n + 1))) (emit (ObservedExit Bridge c) s)) = (r, s4)"
          by (cases "start_bridge cfg (bridge_restart t) (emit (Backoff (backoff (n + 1))) (emit (ObservedExit Bridge c) s))")
        show ?thesis
          by (rule Restart [of h c r])
             (use assms H C nz False st in \<open>auto simp: check_bridge_def Let_def split: result.splits\<close>)
      qed
    qed
  qed
qed

lemma check_bridge_local_cases [consumes 1, case_names Idle Exceeded Restart]:
  assumes "check_bridge_local cfg t n s = (f, n', s')"
  obtains
    (Idle) "f = Continue" "n' = n" "s' = s"
      "case bridge_process s of None \<Rightarrow> True | Some h \<Rightarrow> returncode_of s h = None"
  | (Exceeded) h c where "bridge_process s = Some h" "returncode_of s h = Some c"
      "n' = n + 1" "MAX_RESTARTS < n + 1" "f = Break"
      "s' = emit (ObservedExit Bridge c) s"
  | (Restart) h c r where "bridge_process s = Some h" "returncode_of s h = Some c"
      "n' = n + 1" "n + 1 \<le> MAX_RESTARTS"
      "start_bridge_local cfg (bridge_restart t)
         (emit (Backoff (backoff (n + 1))) (emit (ObservedExit Bridge c) s)) = (r, s')"
      "f = (case r of Done u \<Rightarrow> Continue | Raised m \<Rightarrow> Abort m | Pending \<Rightarrow> Blocked)"
proof (cases "bridge_process s")
  case None
  show ?thesis
    by (rule Idle) (use assms None in \<open>simp_all add: check_bridge_local_def\<close>)
next
  case H: (Some h)
  show ?thesis
  proof (cases "returncode_of s h")
    case None
    show ?thesis
      by (rule Idle) (use assms H None in \<open>simp_all add: check_bridge_local_def\<close>)
  next
    case C: (Some c)
    show ?thesis
      proof (cases "MAX_RESTARTS < n + 1")
        case True
        show ?thesis
          by (rule Exceeded [of h c]) (use assms H C True in \<open>auto simp: check_bridge_local_def Let_def\<close>)
      next
        case False
        obtain r s4 where st: "start_bridge_local cfg (bridge_restart t) (emit (Backoff (backoff (n + 1))) (emit (ObservedExit Bridge c) s)) = (r, s4)"
          by (cases "start_bridge_local cfg (bridge_restart t) (emit (Backoff (backoff (n + 1))) (emit (ObservedExit Bridge c) s))")
        show ?thesis
          by (rule Restart [of h c r])
             (use assms H C False st in \<open>auto simp: check_bridge_local_def Let_def split: result.splits\<close>)
      qed
  qed
qed

lemma held_check_opencode:
  assumes "held s" "check_opencode cfg t n s = (f, n', s')"
  shows "held s'"
  using assms(2)
proof (cases rule: check_opencode_cases)
  case Idle
  then show ?thesis using assms(1) by simp
next
  case (Exceeded h c)
  then show ?thesis using assms(1) by simp
next
  case (Restart h c r)
  show ?thesis
    by (rule held_start_opencode [OF _ _ Restart(5)]) (use assms(1) Restart(1,2) in simp_all)
qed

lemma held_check_opencode_local:
  assumes "held s" "check_opencode_local t n s = (f, n', s')"
  shows "held s'"
  using assms(2)
proof (cases rule: check_opencode_local_cases)
  case Idle
  then show ?thesis using assms(1) by simp
next
  case (Exceeded h c)
  then show ?thesis using assms(1) by simp
next
  case (Restart h c r)
  show ?thesis
    by (rule held_start_opencode_local [OF _ _ Restart(5)]) (use assms(1) Restart(1,2) in simp_all)
qed

lemma held_check_bridge:
  assumes "held s" "check_bridge cfg t n s = (f, n', s')"
  shows "held s'"
  using assms(2)
proof (cases rule: check_bridge_cases)
  case Idle
  then show ?thesis using assms(1) by simp
next
  case (Graceful h)
  then show ?thesis using assms(1) by simp
next
  case (Exceeded h c)
  then show ?thesis using assms(1) by simp
next
  case (Restart h c r)
  show ?thesis
    by (rule held_start_bridge [OF _ _ Restart(6)]) (use assms(1) Restart(1,2) in simp_all)
qed

lemma held_check_bridge_local:
  assumes "held s" "check_bridge_local cfg t n s = (f, n', s')"
  shows "held s'"
  using assms(2)
proof (cases rule: check_bridge_local_cases)
  case Idle
  then show ?thesis using assms(1) by simp
next
  case (Exceeded h c)
  then show ?thesis using assms(1) by simp
next
  case (Restart h c r)
  show ?thesis
    by (rule held_start_bridge_local [OF _ _ Restart(5)]) (use assms(1) Restart(1,2) in simp_all)
qed

text \<open>
  A proof rule for the monitoring loop: \<open>I\<close> holds at every loop test, \<open>A\<close> between the
  two branches, \<open>Q\<close> of the result.
\<close>

lemma monitor_loop_rule:
  assumes start: "I n m s"
    and result: "monitor_loop cfg ts n m s = (r, (n', m'), s')"
    and stop: "\<And>n m s. I n m s \<Longrightarrow> shutdown_event s \<Longrightarrow> Q (Done ()) n m s"
    and pending: "\<And>n m s. I n m s \<Longrightarrow> \<not> shutdown_event s \<Longrightarrow> Q Pending n m s"
    and agent: "\<And>t n m s f n' s'. I n m s \<Longrightarrow> \<not> shutdown_event s \<Longrightarrow>
        check_opencode cfg t n (settle (opencode_process s) (agent_exit t) s) = (f, n', s') \<Longrightarrow>
        (case f of Continue \<Rightarrow> A n' m s' | Break \<Rightarrow> Q (Done ()) n' m s'
         | Abort e \<Rightarrow> Q (Raised e) n' m s' | Blocked \<Rightarrow> Q Pending n' m s')"
    and bridge: "\<And>t n m s f m' s'. A n m s \<Longrightarrow>
        check_bridge cfg t m (settle (bridge_process s) (bridge_exit t) s) = (f, m', s') \<Longrightarrow>
        (case f of Continue \<Rightarrow> I n m' (s'\<lparr>shutdown_event := (shutdown_event s' \<or> signal t)\<rparr>)
         | Break \<Rightarrow> Q (Done ()) n m' s'
         | Abort e \<Rightarrow> Q (Raised e) n m' s' | Blocked \<Rightarrow> Q Pending n m' s')"
  shows "Q r n' m' s'"
  using start result
proof (induction ts arbitrary: n m s)
  case Nil
  then show ?case using stop pending by (auto split: if_splits)
next
  case (Cons t ts)
  show ?case
  proof (cases "shutdown_event s")
    case True
    then show ?thesis using Cons.prems stop by auto
  next
    case False
    obtain f1 n1 s1 where a:
      "check_opencode cfg t n (settle (opencode_process s) (agent_exit t) s) = (f1, n1, s1)"
      by (cases "check_opencode cfg t n (settle (opencode_process s) (agent_exit t) s)")
    note a' = agent [OF Cons.prems(1) False a]
    show ?thesis
    proof (cases f1)
      case Continue
      then have mid: "A n1 m s1" using a' by simp
      obtain f2 m2 s2 where b:
        "check_bridge cfg t m (settle (bridge_process s1) (bridge_exit t) s1) = (f2, m2, s2)"
        by (cases "check_bridge cfg t m (settle (bridge_process s1) (bridge_exit t) s1)")
      note b' = bridge [OF mid b]
      show ?thesis
      proof (cases f2)
        case c2: Continue
        have next_I: "I n1 m2 (s2\<lparr>shutdown_event := (shutdown_event s2 \<or> signal t)\<rparr>)"
          using b' c2 by simp
        have rest: "monitor_loop cfg ts n1 m2
            (s2\<lparr>shutdown_event := (shutdown_event s2 \<or> signal t)\<rparr>) = (r, (n', m'), s')"
          using Cons.prems(2) False a b Continue c2 by simp
        show ?thesis using Cons.IH [OF next_I rest] .
      qed (use Cons.prems(2) False a b Continue b' in auto)
    qed (use Cons.prems(2) False a a' in auto)
  qed
qed

text \<open>
  A proof rule for the monitoring loop: \<open>I\<close> holds at every loop test, \<open>A\<close> between the
  two branches, \<open>Q\<close> of the result.
\<close>

lemma monitor_loop_local_rule:
  assumes start: "I n m s"
    and result: "monitor_loop_local cfg ts n m s = (r, (n', m'), s')"
    and stop: "\<And>n m s. I n m s \<Longrightarrow> shutdown_event s \<Longrightarrow> Q (Done ()) n m s"
    and pending: "\<And>n m s. I n m s \<Longrightarrow> \<not> shutdown_event s \<Longrightarrow> Q Pending n m s"
    and agent: "\<And>t n m s f n' s'. I n m s \<Longrightarrow> \<not> shutdown_event s \<Longrightarrow>
        check_opencode_local t n (settle (opencode_process s) (agent_exit t) s) = (f, n', s') \<Longrightarrow>
        (case f of Continue \<Rightarrow> A n' m s' | Break \<Rightarrow> Q (Done ()) n' m s'
         | Abort e \<Rightarrow> Q (Raised e) n' m s' | Blocked \<Rightarrow> Q Pending n' m s')"
    and bridge: "\<And>t n m s f m' s'. A n m s \<Longrightarrow>
        check_bridge_local cfg t m (settle (bridge_process s) (bridge_exit t) s) = (f, m', s') \<Longrightarrow>
        (case f of Continue \<Rightarrow> I n m' (s'\<lparr>shutdown_event := (shutdown_event s' \<or> signal t)\<rparr>)
         | Break \<Rightarrow> Q (Done ()) n m' s'
         | Abort e \<Rightarrow> Q (Raised e) n m' s' | Blocked \<Rightarrow> Q Pending n m' s')"
  shows "Q r n' m' s'"
  using start result
proof (induction ts arbitrary: n m s)
  case Nil
  then show ?case using stop pending by (auto split: if_splits)
next
  case (Cons t ts)
  show ?case
  proof (cases "shutdown_event s")
    case True
    then show ?thesis using Cons.prems stop by auto
  next
    case False
    obtain f1 n1 s1 where a:
      "check_opencode_local t n (settle (opencode_process s) (agent_exit t) s) = (f1, n1, s1)"
      by (cases "check_opencode_local t n (settle (opencode_process s) (agent_exit t) s)")
    note a' = agent [OF Cons.prems(1) False a]
    show ?thesis
    proof (cases f1)
      case Continue
      then have mid: "A n1 m s1" using a' by simp
      obtain f2 m2 s2 where b:
        "check_bridge_local cfg t m (settle (bridge_process s1) (bridge_exit t) s1) = (f2, m2, s2)"
        by (cases "check_bridge_local cfg t m (settle (bridge_process s1) (bridge_exit t) s1)")
      note b' = bridge [OF mid b]
      show ?thesis
      proof (cases f2)
        case c2: Continue
        have next_I: "I n1 m2 (s2\<lparr>shutdown_event := (shutdown_event s2 \<or> signal t)\<rparr>)"
          using b' c2 by simp
        have rest: "monitor_loop_local cfg ts n1 m2
            (s2\<lparr>shutdown_event := (shutdown_event s2 \<or> signal t)\<rparr>) = (r, (n', m'), s')"
          using Cons.prems(2) False a b Continue c2 by simp
        show ?thesis using Cons.IH [OF next_I rest] .
      qed (use Cons.prems(2) False a b Continue b' in auto)
    qed (use Cons.prems(2) False a a' in auto)
  qed
qed

lemma held_monitor_loop:
  assumes "held s" "monitor_loop cfg ts n m s = (r, (n', m'), s')"
  shows "held s'"
proof (rule monitor_loop_rule [where I = "\<lambda>n m s. held s" and A = "\<lambda>n m s. held s"
      and Q = "\<lambda>r n m s. held s", OF assms])
  fix t n m s f n' s'
  assume "held s" "check_opencode cfg t n (settle (opencode_process s) (agent_exit t) s) = (f, n', s')"
  then have "held s'" using held_check_opencode held_settle by blast
  then show "case f of Continue \<Rightarrow> held s' | Break \<Rightarrow> held s' | Abort e \<Rightarrow> held s' | Blocked \<Rightarrow> held s'"
    by (cases f) simp_all
next
  fix t n m s f m' s'
  assume "held s" "check_bridge cfg t m (settle (bridge_process s) (bridge_exit t) s) = (f, m', s')"
  then have "held s'" using held_check_bridge held_settle by blast
  then show "case f of Continue \<Rightarrow> held (s'\<lparr>shutdown_event := (shutdown_event s' \<or> signal t)\<rparr>)
      | Break \<Rightarrow> held s' | Abort e \<Rightarrow> held s' | Blocked \<Rightarrow> held s'"
    by (cases f) simp_all
qed

lemma held_monitor_loop_local:
  assumes "held s" "monitor_loop_local cfg ts n m s = (r, (n', m'), s')"
  shows "held s'"
proof (rule monitor_loop_local_rule [where I = "\<lambda>n m s. held s" and A = "\<lambda>n m s. held s"
      and Q = "\<lambda>r n m s. held s", OF assms])
  fix t n m s f n' s'
  assume "held s" "check_opencode_local t n (settle (opencode_process s) (agent_exit t) s) = (f, n', s')"
  then have "held s'" using held_check_opencode_local held_settle by blast
  then show "case f of Continue \<Rightarrow> held s' | Break \<Rightarrow> held s' | Abort e \<Rightarrow> held s' | Blocked \<Rightarrow> held s'"
    by (cases f) simp_all
next
  fix t n m s f m' s'
  assume "held s" "check_bridge_local cfg t m (settle (bridge_process s) (bridge_exit t) s) = (f, m', s')"
  then have "held s'" using held_check_bridge_local held_settle by blast
  then show "case f of Continue \<Rightarrow> held (s'\<lparr>shutdown_event := (shutdown_event s' \<or> signal t)\<rparr>)
      | Break \<Rightarrow> held s' | Abort e \<Rightarrow> held s' | Blocked \<Rightarrow> held s'"
    by (cases f) simp_all
qed

subsection \<open>Shutdown on every way out of the main routine\<close>

lemma start_opencode_bridge_process:
  "start_opencode b s = (r, s') \<Longrightarrow> bridge_process s' = bridge_process s"
  by (auto simp: start_opencode_def spawn_def Let_def split: option.splits prod.splits health.splits)

lemma start_opencode_local_bridge_process:
  "start_opencode_local b s = (r, s') \<Longrightarrow> bridge_process s' = bridge_process s"
  by (auto simp: start_opencode_local_def spawn_def Let_def split: option.splits prod.splits health.splits)

lemma held_startup_and_monitor:
  assumes "startup_and_monitor cfg w init = (r, s)"
  shows "held s"
proof -
  obtain r1 s1 where g: "perform_git_sync cfg (git w) init = (r1, s1)"
    by (cases "perform_git_sync cfg (git w) init")
  have f1: "processes s1 = []" "opencode_process s1 = None" "bridge_process s1 = None"
    using perform_git_sync_fields [OF g] by (simp_all add: init_def)
  have s1: "held s1" using f1 by (simp add: held_def)
  obtain r2 s2 where a: "start_opencode (first_agent w) s1 = (r2, s2)"
    by (cases "start_opencode (first_agent w) s1")
  have s2: "held s2" using held_start_opencode [OF s1 _ a] f1 by simp
  have b2: "bridge_process s2 = None" using start_opencode_bridge_process [OF a] f1 by simp
  obtain r3 s3 where b: "start_bridge cfg (first_bridge w) s2 = (r3, s3)"
    by (cases "start_bridge cfg (first_bridge w) s2")
  have s3: "held s3" using held_start_bridge [OF s2 _ b] b2 by simp
  obtain r4 c4 s4 where m: "monitor_processes cfg (ticks w)
      (s3\<lparr>shutdown_event := (shutdown_event s3 \<or> startup_signal w)\<rparr>) = (r4, c4, s4)"
    by (cases "monitor_processes cfg (ticks w)
      (s3\<lparr>shutdown_event := (shutdown_event s3 \<or> startup_signal w)\<rparr>)")
  obtain n4 m4 where c4: "c4 = (n4, m4)" by (cases c4)
  have s4: "held s4"
    using held_monitor_loop [OF _ m [unfolded monitor_processes_def c4]] s3 by simp
  show ?thesis
    using assms g a b m s1 s2 s3 s4
    by (auto simp: startup_and_monitor_def split: result.splits)
qed

lemma held_startup_and_monitor_local:
  assumes "startup_and_monitor_local cfg w init = (r, s)"
  shows "held s"
proof -
  have f1: "processes init = []" "opencode_process init = None" "bridge_process init = None"
    by (simp_all add: init_def)
  have s1: "held init" by (rule held_init)
  obtain r2 s2 where a: "start_opencode_local (local_agent w) init = (r2, s2)"
    by (cases "start_opencode_local (local_agent w) init")
  have s2: "held s2" using held_start_opencode_local [OF s1 _ a] f1 by simp
  have b2: "bridge_process s2 = None" using start_opencode_local_bridge_process [OF a] f1 by simp
  obtain r3 s3 where b: "start_bridge_local cfg (local_bridge w) s2 = (r3, s3)"
    by (cases "start_bridge_local cfg (local_bridge w) s2")
  have s3: "held s3" using held_start_bridge_local [OF s2 _ b] b2 by simp
  obtain r4 c4 s4 where m: "monitor_processes_local cfg (local_ticks w)
      (s3\<lparr>shutdown_event := (shutdown_event s3 \<or> local_startup_signal w)\<rparr>) = (r4, c4, s4)"
    by (cases "monitor_processes_local cfg (local_ticks w)
      (s3\<lparr>shutdown_event := (shutdown_event s3 \<or> local_startup_signal w)\<rparr>)")
  obtain n4 m4 where c4: "c4 = (n4, m4)" by (cases c4)
  have s4: "held s4"
    using held_monitor_loop_local [OF _ m [unfolded monitor_processes_local_def c4]] s3 by simp
  show ?thesis
    using assms a b m s1 s2 s3 s4
    by (auto simp: startup_and_monitor_local_def split: result.splits outcome.splits if_splits)
qed

lemma child_exits_keeps:
  "i < length (processes s) \<Longrightarrow> returncode (processes s ! i) \<noteq> None \<Longrightarrow>
   returncode (processes (child_exits h c s) ! i) \<noteq> None"
  by (auto simp: child_exits_def nth_list_update)

lemma child_exits_sets:
  "h < length (processes s) \<Longrightarrow> returncode (processes (child_exits h c s) ! h) \<noteq> None"
  by (auto simp: child_exits_def)

lemma settle_keeps:
  "i < length (processes s) \<Longrightarrow> returncode (processes s ! i) \<noteq> None \<Longrightarrow>
   returncode (processes (settle handle e s) ! i) \<noteq> None"
  by (auto simp: settle_def child_exits_def nth_list_update split: option.splits)

lemma settle_no_handle [simp]: "settle None e s = s"
  by (simp add: settle_def)

lemma stop_child_fields [simp]:
  "opencode_process (stop_child handle gone timeout d other late s) = opencode_process s"
  "bridge_process (stop_child handle gone timeout d other late s) = bridge_process s"
  "length (processes (stop_child handle gone timeout d other late s)) = length (processes s)"
  by (simp_all add: stop_child_def Let_def split: option.splits)

text \<open>
  \<^verbatim>\<open>shutdown\<close> is the block for the bridge, with a wait of 5 s, followed by the block for
  the agent, with a wait of 10 s during which the bridge may be reaped.
\<close>

lemma shutdown_blocks:
  "shutdown env s =
     emit ShutdownComplete
       (stop_child (opencode_process s) (agent_gone env) 10 (agent_dying env)
          (bridge_process s) (bridge_late env)
          (stop_child (bridge_process s) (bridge_gone env) 5 (bridge_dying env) None None
             (emit ShutdownStart s)))"
proof (cases "bridge_process s")
  case None
  then show ?thesis
    by (simp add: shutdown_def stop_child_def Let_def cong: option.case_cong)
next
  case (Some h)
  show ?thesis
  proof (cases "returncode_of (settle (Some h) (bridge_gone env) (emit ShutdownStart s)) h")
    case None
    then show ?thesis using Some
      by (cases "wait_for 5 (bridge_dying env)")
         (simp_all add: shutdown_def stop_child_def Let_def cong: option.case_cong)
  next
    case found: (Some c)
    then show ?thesis using Some
      by (simp add: shutdown_def stop_child_def Let_def cong: option.case_cong)
  qed
qed

lemma stop_child_trace:
  "\<exists>found. trace (stop_child handle gone timeout d other late s)
      = trace s @ stop_events handle found timeout d"
proof (cases handle)
  case None
  then show ?thesis by (simp add: stop_child_def settle_def)
next
  case (Some h)
  show ?thesis
  proof (cases "returncode_of (settle (Some h) gone s) h")
    case None
    have "trace (stop_child handle gone timeout d other late s)
        = trace s @ stop_events handle None timeout d"
      using Some None by (cases "wait_for timeout d") (simp_all add: stop_child_def Let_def)
    then show ?thesis by blast
  next
    case found: (Some c)
    have "trace (stop_child handle gone timeout d other late s)
        = trace s @ stop_events handle (Some c) timeout d"
      using Some found by (simp add: stop_child_def Let_def)
    then show ?thesis by blast
  qed
qed

lemma shutdown_trace:
  "\<exists>bridge_found agent_found.
     trace (shutdown env s) =
       trace s @ [ShutdownStart]
         @ stop_events (bridge_process s) bridge_found 5 (bridge_dying env)
         @ stop_events (opencode_process s) agent_found 10 (agent_dying env)
         @ [ShutdownComplete]"
proof -
  let ?s0 = "emit ShutdownStart s"
  let ?s2 = "stop_child (bridge_process s) (bridge_gone env) 5 (bridge_dying env) None None ?s0"
  obtain bf where b: "trace ?s2 = trace ?s0 @ stop_events (bridge_process s) bf 5 (bridge_dying env)"
    using stop_child_trace by blast
  obtain af where a: "trace (stop_child (opencode_process s) (agent_gone env) 10 (agent_dying env)
        (bridge_process s) (bridge_late env) ?s2)
      = trace ?s2 @ stop_events (opencode_process s) af 10 (agent_dying env)"
    using stop_child_trace by blast
  have "trace (shutdown env s) =
       trace s @ [ShutdownStart]
         @ stop_events (bridge_process s) bf 5 (bridge_dying env)
         @ stop_events (opencode_process s) af 10 (agent_dying env)
         @ [ShutdownComplete]"
    by (simp add: shutdown_blocks a b)
  then show ?thesis by blast
qed

text \<open>After its block a held child has its return code set or has been sent SIGKILL.\<close>

lemma stop_child_returncode:
  assumes "i < length (processes s)" "returncode (processes s ! i) \<noteq> None"
  shows "returncode (processes (stop_child handle gone timeout d other late s) ! i) \<noteq> None"
proof -
  let ?s1 = "settle handle gone s"
  have s1: "i < length (processes ?s1)" "returncode (processes ?s1 ! i) \<noteq> None"
    using assms settle_keeps by simp_all
  show ?thesis
  proof (cases handle)
    case None
    then show ?thesis using s1 by (simp add: stop_child_def)
  next
    case (Some h)
    let ?w = "settle other late (emit (Waited h timeout) (emit (Terminate h) ?s1))"
    have w: "i < length (processes ?w)" "returncode (processes ?w ! i) \<noteq> None"
      using s1 settle_keeps [of i "emit (Waited h timeout) (emit (Terminate h) ?s1)"] by simp_all
    show ?thesis
      using Some s1 w child_exits_keeps [OF w]
      by (simp add: stop_child_def Let_def split: option.splits)
  qed
qed

lemma stop_child_kill_kept:
  "Kill i \<in> set (trace s) \<Longrightarrow>
   Kill i \<in> set (trace (stop_child handle gone timeout d other late s))"
  by (auto simp: stop_child_def Let_def split: option.splits)

lemma stop_child_stops:
  assumes "h < length (processes s)"
  shows "returncode (processes (stop_child (Some h) gone timeout d other late s) ! h) \<noteq> None
   \<or> Kill h \<in> set (trace (stop_child (Some h) gone timeout d other late s))"
proof -
  let ?s1 = "settle (Some h) gone s"
  let ?w = "settle other late (emit (Waited h timeout) (emit (Terminate h) ?s1))"
  have len: "h < length (processes ?s1)" "h < length (processes ?w)" using assms by simp_all
  show ?thesis
  proof (cases "returncode_of ?s1 h")
    case None
    show ?thesis
    proof (cases "wait_for timeout d")
      case timeout: None
      then show ?thesis using \<open>returncode_of ?s1 h = None\<close>
        by (simp add: stop_child_def Let_def)
    next
      case (Some c)
      then show ?thesis using \<open>returncode_of ?s1 h = None\<close> child_exits_sets [OF len(2), of c]
        by (simp add: stop_child_def Let_def)
    qed
  next
    case (Some c)
    then show ?thesis using len(1)
      by (simp add: stop_child_def Let_def returncode_of_def)
  qed
qed

lemma reaped_or_killed_shutdown:
  assumes "held s"
  shows "reaped_or_killed (shutdown env s)"
  unfolding reaped_or_killed_def
proof (intro allI impI)
  fix i
  let ?s0 = "emit ShutdownStart s"
  let ?s2 = "stop_child (bridge_process s) (bridge_gone env) 5 (bridge_dying env) None None ?s0"
  let ?s4 = "stop_child (opencode_process s) (agent_gone env) 10 (agent_dying env)
      (bridge_process s) (bridge_late env) ?s2"
  assume "i < length (processes (shutdown env s))"
  then have i: "i < length (processes s)" by (simp add: shutdown_blocks)
  have goal: "returncode (processes ?s4 ! i) \<noteq> None \<or> Kill i \<in> set (trace ?s4)"
  proof (cases "returncode (processes s ! i)")
    case (Some c)
    then have r0: "returncode (processes ?s0 ! i) \<noteq> None" by simp
    have r2: "returncode (processes ?s2 ! i) \<noteq> None"
      using stop_child_returncode [of i ?s0, OF _ r0] i by simp
    have "returncode (processes ?s4 ! i) \<noteq> None"
      using stop_child_returncode [of i ?s2, OF _ r2] i by simp
    then show ?thesis by simp
  next
    case None
    then consider "opencode_process s = Some i" | "bridge_process s = Some i"
      using assms i by (auto simp: held_def)
    then show ?thesis
    proof cases
      case 1
      have "i < length (processes ?s2)" using i by simp
      from stop_child_stops [OF this, of "agent_gone env" 10 "agent_dying env"
          "bridge_process s" "bridge_late env"]
      show ?thesis using 1 by simp
    next
      case 2
      have "i < length (processes ?s0)" using i by simp
      from stop_child_stops [OF this, of "bridge_gone env" 5 "bridge_dying env" None None]
      have "returncode (processes ?s2 ! i) \<noteq> None \<or> Kill i \<in> set (trace ?s2)"
        using 2 by simp
      then show ?thesis
      proof
        assume r2: "returncode (processes ?s2 ! i) \<noteq> None"
        have "returncode (processes ?s4 ! i) \<noteq> None"
          using stop_child_returncode [of i ?s2, OF _ r2] i by simp
        then show ?thesis by simp
      next
        assume "Kill i \<in> set (trace ?s2)"
        then have "Kill i \<in> set (trace ?s4)" by (rule stop_child_kill_kept)
        then show ?thesis by simp
      qed
    qed
  qed
  show "returncode (processes (shutdown env s) ! i) \<noteq> None \<or> Kill i \<in> set (trace (shutdown env s))"
    using goal by (auto simp: shutdown_blocks)
qed

text \<open>
  Claim C6 as stated fails on its last part. When the agent does not exit within the 10 s
  after \<^verbatim>\<open>terminate()\<close>, the supervisor calls \<^verbatim>\<open>kill()\<close> and returns without waiting:
  \<^verbatim>\<open>run\<close> has returned, the shutdown sequence has run in the stated order, and the
  agent's return code is still unset.
\<close>

theorem killed_agent_has_no_returncode:
  "fst (run acme_config stubborn_agent_world) = Done ()
   \<and> trace (snd (run acme_config stubborn_agent_world)) =
       [Spawned Agent 0, HealthOk, ReadySet, Spawned Bridge 1, ShutdownStart,
        Terminate 1, Waited 1 5, Reaped 1 0, Terminate 0, Waited 0 10, Kill 0,
        ShutdownComplete]
   \<and> map returncode (processes (snd (run acme_config stubborn_agent_world))) = [None, Some 0]"
  by code_simp

text \<open>
  Claim C6, amended. \<^verbatim>\<open>run\<close> never lets an exception out. On each way out of the
  \<^verbatim>\<open>try\<close> block (monitoring ended, by itself or after a signal; an exception, after the
  fatal report) the shutdown sequence runs: first the bridge, if it still runs, is
  terminated, waited for up to 5 s (it is reaped if it exits in less than 5 s) and killed
  otherwise; then the agent likewise, with a wait of up to 10 s. After \<^verbatim>\<open>run\<close> has
  returned, every agent or bridge process that was created has its return code set or has
  been sent SIGKILL.
\<close>

theorem shutdown_runs_on_every_exit:
  "fst (run cfg w) \<noteq> Raised e
   \<and> (startup_and_monitor cfg w init = (Done (), s0) \<longrightarrow>
        run cfg w = (Done (), shutdown (stopping w) s0))
   \<and> (startup_and_monitor cfg w init = (Raised e, s0) \<longrightarrow>
        run cfg w = (Done (), shutdown (stopping w) (report_fatal_error cfg e s0)))
   \<and> (fst (run cfg w) = Done () \<longrightarrow>
        (\<exists>s bridge_found agent_found.
            held s \<and> snd (run cfg w) = shutdown (stopping w) s
          \<and> trace (snd (run cfg w)) =
              trace s @ [ShutdownStart]
                @ stop_events (bridge_process s) bridge_found 5 (bridge_dying (stopping w))
                @ stop_events (opencode_process s) agent_found 10 (agent_dying (stopping w))
                @ [ShutdownComplete])
        \<and> reaped_or_killed (snd (run cfg w)))"
proof (intro conjI impI)
  show "fst (run cfg w) \<noteq> Raised e"
    by (simp add: run_def split: prod.splits result.splits)
next
  assume "startup_and_monitor cfg w init = (Done (), s0)"
  then show "run cfg w = (Done (), shutdown (stopping w) s0)"
    by (simp add: run_def)
next
  assume "startup_and_monitor cfg w init = (Raised e, s0)"
  then show "run cfg w = (Done (), shutdown (stopping w) (report_fatal_error cfg e s0))"
    by (simp add: run_def)
next
  assume returned: "fst (run cfg w) = Done ()"
  obtain r s1 where t: "startup_and_monitor cfg w init = (r, s1)"
    by (cases "startup_and_monitor cfg w init")
  have h1: "held s1" using held_startup_and_monitor [OF t] .
  obtain s where s: "held s" "snd (run cfg w) = shutdown (stopping w) s"
  proof (cases r)
    case (Done u)
    then show ?thesis using that [of s1] t h1 by (simp add: run_def)
  next
    case (Raised m)
    then show ?thesis using that [of "report_fatal_error cfg m s1"] t h1 by (simp add: run_def)
  next
    case Pending
    then show ?thesis using returned t by (simp add: run_def)
  qed
  obtain bf af where tr: "trace (shutdown (stopping w) s) =
       trace s @ [ShutdownStart]
         @ stop_events (bridge_process s) bf 5 (bridge_dying (stopping w))
         @ stop_events (opencode_process s) af 10 (agent_dying (stopping w))
         @ [ShutdownComplete]"
    using shutdown_trace by blast
  show "\<exists>s bridge_found agent_found.
            held s \<and> snd (run cfg w) = shutdown (stopping w) s
          \<and> trace (snd (run cfg w)) =
              trace s @ [ShutdownStart]
                @ stop_events (bridge_process s) bridge_found 5 (bridge_dying (stopping w))
                @ stop_events (opencode_process s) agent_found 10 (agent_dying (stopping w))
                @ [ShutdownComplete]"
    using s tr by auto
  show "reaped_or_killed (snd (run cfg w))"
    using s reaped_or_killed_shutdown by simp
qed

theorem shutdown_runs_on_every_exit_witness:
  "fst (run acme_config stubborn_agent_world) = Done ()
   \<and> reaped_or_killed (snd (run acme_config stubborn_agent_world))
   \<and> fst (run acme_config slow_children_world) = Done ()
   \<and> reaped_or_killed (snd (run acme_config slow_children_world))
   \<and> trace (snd (run acme_config slow_children_world)) =
       [Spawned Agent 0, HealthOk, ReadySet, Spawned Bridge 1, ShutdownStart,
        Terminate 1, Waited 1 5, Kill 1, Terminate 0, Waited 0 10, Reaped 0 0,
        ShutdownComplete]
   \<and> map returncode (processes (snd (run acme_config slow_children_world))) = [Some 0, Some (- 9)]
   \<and> trace (snd (run acme_config unhealthy_world)) =
       [Spawned Agent 0, Fatal ''OpenCode server failed to become healthy'',
        FatalPost ''OpenCode server failed to become healthy'',
        ShutdownStart, Terminate 0, Waited 0 10, Reaped 0 0, ShutdownComplete]"
proof -
  let ?u = "startup_and_monitor acme_config unhealthy_world init"
  have a: "fst (run acme_config stubborn_agent_world) = Done ()" by code_simp
  have b: "fst (run acme_config slow_children_world) = Done ()" by code_simp
  have slow: "trace (snd (run acme_config slow_children_world)) =
       [Spawned Agent 0, HealthOk, ReadySet, Spawned Bridge 1, ShutdownStart,
        Terminate 1, Waited 1 5, Kill 1, Terminate 0, Waited 0 10, Reaped 0 0,
        ShutdownComplete]"
    "map returncode (processes (snd (run acme_config slow_children_world))) = [Some 0, Some (- 9)]"
    by code_simp+
  have raised: "fst ?u = Raised ''OpenCode server failed to become healthy''" by code_simp
  have u: "?u = (Raised ''OpenCode server failed to become healthy'', snd ?u)"
    using raised by (metis prod.collapse)
  have "run acme_config unhealthy_world =
      (Done (), shutdown (stopping unhealthy_world)
         (report_fatal_error acme_config ''OpenCode server failed to become healthy'' (snd ?u)))"
    using shutdown_runs_on_every_exit [of acme_config unhealthy_world
        "''OpenCode server failed to become healthy''" "snd ?u"] u
    by blast
  moreover have "trace (shutdown (stopping unhealthy_world)
         (report_fatal_error acme_config ''OpenCode server failed to become healthy'' (snd ?u))) =
       [Spawned Agent 0, Fatal ''OpenCode server failed to become healthy'',
        FatalPost ''OpenCode server failed to become healthy'',
        ShutdownStart, Terminate 0, Waited 0 10, Reaped 0 0, ShutdownComplete]"
    by code_simp
  ultimately have c: "trace (snd (run acme_config unhealthy_world)) =
       [Spawned Agent 0, Fatal ''OpenCode server failed to become healthy'',
        FatalPost ''OpenCode server failed to become healthy'',
        ShutdownStart, Terminate 0, Waited 0 10, Reaped 0 0, ShutdownComplete]"
    by simp
  show ?thesis
    using a b c slow shutdown_runs_on_every_exit [of acme_config stubborn_agent_world]
      shutdown_runs_on_every_exit [of acme_config slow_children_world]
    by simp
qed

subsection \<open>Restart counters and the bound on spawns\<close>

lemma spawns_append [simp]: "spawns k (es @ es') = spawns k es + spawns k es'"
  by (simp add: spawns_def)

lemma spawns_simps [simp]:
  "spawns k [] = 0"
  "spawns k (Spawned k' h # es) = (if k = k' then 1 else 0) + spawns k es"
  "spawns k (HealthOk # es) = spawns k es"
  "spawns k (ReadySet # es) = spawns k es"
  "spawns k (ReadyCleared # es) = spawns k es"
  "spawns k (ObservedExit k' c # es) = spawns k es"
  "spawns k (Backoff d # es) = spawns k es"
  "spawns k (Fatal m # es) = spawns k es"
  "spawns k (FatalPost m # es) = spawns k es"
  "spawns k (ShutdownStart # es) = spawns k es"
  "spawns k (Terminate h # es) = spawns k es"
  "spawns k (Waited h d # es) = spawns k es"
  "spawns k (Reaped h c # es) = spawns k es"
  "spawns k (Kill h # es) = spawns k es"
  "spawns k (ShutdownComplete # es) = spawns k es"
  by (simp_all add: spawns_def)

lemma spawns_stop_events [simp]: "spawns k (stop_events handle found timeout d) = 0"
  by (cases "(handle, found, timeout, d)" rule: stop_events.cases)
     (simp_all split: option.splits)

lemma spawns_shutdown [simp]: "spawns k (trace (shutdown env s)) = spawns k (trace s)"
proof -
  obtain bf af where "trace (shutdown env s) =
       trace s @ [ShutdownStart]
         @ stop_events (bridge_process s) bf 5 (bridge_dying env)
         @ stop_events (opencode_process s) af 10 (agent_dying env)
         @ [ShutdownComplete]"
    using shutdown_trace by blast
  then show ?thesis by simp
qed

lemma spawns_report [simp]:
  "spawns k (trace (report_fatal_error cfg m s)) = spawns k (trace s)"
  by (simp add: report_fatal_error_def)

lemma fatal_reported:
  "Fatal m \<in> set (trace (report_fatal_error cfg m s))"
  by (simp add: report_fatal_error_def)


lemma start_opencode_spawns:
  assumes "start_opencode b s = (r, s')"
  shows "spawns Agent (trace s') \<le> spawns Agent (trace s) + 1"
    and "spawns Bridge (trace s') = spawns Bridge (trace s)"
  using assms
  by (auto simp: start_opencode_def spawn_def Let_def
      split: option.splits prod.splits health.splits)

lemma start_bridge_spawns:
  assumes "start_bridge cfg b s = (r, s')"
  shows "spawns Bridge (trace s') \<le> spawns Bridge (trace s) + 1"
    and "spawns Agent (trace s') = spawns Agent (trace s)"
  using assms
  by (auto simp: start_bridge_def spawn_def Let_def split: option.splits if_splits)

lemma start_opencode_local_spawns:
  assumes "start_opencode_local b s = (r, s')"
  shows "spawns Agent (trace s') \<le> spawns Agent (trace s) + 1"
    and "spawns Bridge (trace s') = spawns Bridge (trace s)"
  using assms
  by (auto simp: start_opencode_local_def spawn_def Let_def
      split: option.splits prod.splits health.splits)

lemma start_bridge_local_spawns:
  assumes "start_bridge_local cfg b s = (r, s')"
  shows "spawns Bridge (trace s') \<le> spawns Bridge (trace s) + 1"
    and "spawns Agent (trace s') = spawns Agent (trace s)"
  using assms
  by (auto simp: start_bridge_local_def spawn_def Let_def split: option.splits if_splits)

text \<open>How one branch of the loop body moves its counter.\<close>

lemma check_opencode_counter:
  assumes "check_opencode cfg t n s = (f, n', s')"
  shows "n' = (case exit_seen (opencode_process s) s of None \<Rightarrow> n | Some c \<Rightarrow> n + 1)"
  using assms
  by (cases rule: check_opencode_cases) (auto simp: exit_seen_def split: option.splits)

lemma check_opencode_local_counter:
  assumes "check_opencode_local t n s = (f, n', s')"
  shows "n' = (case exit_seen (opencode_process s) s of None \<Rightarrow> n | Some c \<Rightarrow> n + 1)"
  using assms
  by (cases rule: check_opencode_local_cases) (auto simp: exit_seen_def split: option.splits)

lemma check_bridge_counter:
  assumes "check_bridge cfg t m s = (f, m', s')"
  shows "m' = (case exit_seen (bridge_process s) s of
                 None \<Rightarrow> m | Some c \<Rightarrow> if c = 0 then m else m + 1)"
  using assms
  by (cases rule: check_bridge_cases) (auto simp: exit_seen_def split: option.splits)

lemma check_bridge_local_counter:
  assumes "check_bridge_local cfg t m s = (f, m', s')"
  shows "m' = (case exit_seen (bridge_process s) s of None \<Rightarrow> m | Some c \<Rightarrow> m + 1)"
  using assms
  by (cases rule: check_bridge_local_cases) (auto simp: exit_seen_def split: option.splits)


lemma set_trace_report:
  "set (trace (report_fatal_error cfg m s)) \<supseteq> set (trace s)"
  by (auto simp: report_fatal_error_def)

lemma check_opencode_step:
  assumes "check_opencode cfg t n s = (f, n', s')" "n \<le> MAX_RESTARTS"
  shows "n \<le> n'
    \<and> spawns Bridge (trace s') = spawns Bridge (trace s)
    \<and> spawns Agent (trace s') + n \<le> spawns Agent (trace s) + min n' MAX_RESTARTS
    \<and> (n' \<le> MAX_RESTARTS \<or> (f = Break \<and> n' = MAX_RESTARTS + 1 \<and> shutdown_event s'
          \<and> Fatal (''OpenCode crashed '' @ str_int (int n') @ '' times, giving up'')
               \<in> set (trace s')))"
  using assms(1)
proof (cases rule: check_opencode_cases)
  case Idle
  then show ?thesis using assms(2) by simp
next
  case (Exceeded h c)
  then show ?thesis using assms(2) fatal_reported by simp
next
  case (Restart h c r)
  note sp = start_opencode_spawns [OF Restart(5)]
  show ?thesis using sp Restart assms(2) by simp
qed

lemma check_bridge_step:
  assumes "check_bridge cfg t n s = (f, n', s')" "n \<le> MAX_RESTARTS"
  shows "n \<le> n'
    \<and> spawns Agent (trace s') = spawns Agent (trace s)
    \<and> spawns Bridge (trace s') + n \<le> spawns Bridge (trace s) + min n' MAX_RESTARTS
    \<and> (n' \<le> MAX_RESTARTS \<or> (f = Break \<and> n' = MAX_RESTARTS + 1 \<and> shutdown_event s'
          \<and> Fatal (''Bridge crashed '' @ str_int (int n') @ '' times, giving up'')
               \<in> set (trace s')))"
  using assms(1)
proof (cases rule: check_bridge_cases)
  case Idle
  then show ?thesis using assms(2) by simp
next
  case (Graceful h)
  then show ?thesis using assms(2) by simp
next
  case (Exceeded h c)
  then show ?thesis using assms(2) fatal_reported by simp
next
  case (Restart h c r)
  note sp = start_bridge_spawns [OF Restart(6)]
  show ?thesis using sp Restart assms(2) by simp
qed

lemma check_opencode_local_step:
  assumes "check_opencode_local t n s = (f, n', s')" "n \<le> MAX_RESTARTS"
  shows "n \<le> n'
    \<and> spawns Bridge (trace s') = spawns Bridge (trace s)
    \<and> spawns Agent (trace s') + n \<le> spawns Agent (trace s) + min n' MAX_RESTARTS
    \<and> (n' \<le> MAX_RESTARTS \<or> (f = Break \<and> n' = MAX_RESTARTS + 1))"
  using assms(1)
proof (cases rule: check_opencode_local_cases)
  case Idle
  then show ?thesis using assms(2) by simp
next
  case (Exceeded h c)
  then show ?thesis using assms(2) by simp
next
  case (Restart h c r)
  note sp = start_opencode_local_spawns [OF Restart(5)]
  show ?thesis using sp Restart assms(2) by simp
qed

lemma check_bridge_local_step:
  assumes "check_bridge_local cfg t n s = (f, n', s')" "n \<le> MAX_RESTARTS"
  shows "n \<le> n'
    \<and> spawns Agent (trace s') = spawns Agent (trace s)
    \<and> spawns Bridge (trace s') + n \<le> spawns Bridge (trace s) + min n' MAX_RESTARTS
    \<and> (n' \<le> MAX_RESTARTS \<or> (f = Break \<and> n' = MAX_RESTARTS + 1))"
  using assms(1)
proof (cases rule: check_bridge_local_cases)
  case Idle
  then show ?thesis using assms(2) by simp
next
  case (Exceeded h c)
  then show ?thesis using assms(2) by simp
next
  case (Restart h c r)
  note sp = start_bridge_local_spawns [OF Restart(5)]
  show ?thesis using sp Restart assms(2) by simp
qed


lemma monitor_loop_counters:
  assumes run: "monitor_loop cfg ts n m s = (r, (n', m'), s')"
    and low: "n \<le> MAX_RESTARTS" "m \<le> MAX_RESTARTS"
  shows "n \<le> n' \<and> m \<le> m'
      \<and> spawns Agent (trace s') + n \<le> spawns Agent (trace s) + min n' MAX_RESTARTS
      \<and> spawns Bridge (trace s') + m \<le> spawns Bridge (trace s) + min m' MAX_RESTARTS
      \<and> ((n' \<le> MAX_RESTARTS \<and> m' \<le> MAX_RESTARTS)
         \<or> (r = Done () \<and> shutdown_event s'
           \<and> ((n' = MAX_RESTARTS + 1 \<and> m' \<le> MAX_RESTARTS
                \<and> Fatal (''OpenCode crashed '' @ str_int (int n') @ '' times, giving up'')
                     \<in> set (trace s'))
              \<or> (m' = MAX_RESTARTS + 1 \<and> n' \<le> MAX_RESTARTS
                \<and> Fatal (''Bridge crashed '' @ str_int (int m') @ '' times, giving up'')
                     \<in> set (trace s')))))"
proof -
  let ?I = "\<lambda>n1 m1 s1. n \<le> n1 \<and> m \<le> m1 \<and> n1 \<le> MAX_RESTARTS \<and> m1 \<le> MAX_RESTARTS
      \<and> spawns Agent (trace s1) + n \<le> spawns Agent (trace s) + n1
      \<and> spawns Bridge (trace s1) + m \<le> spawns Bridge (trace s) + m1"
  let ?Q = "\<lambda>r n1 m1 s1. n \<le> n1 \<and> m \<le> m1
      \<and> spawns Agent (trace s1) + n \<le> spawns Agent (trace s) + min n1 MAX_RESTARTS
      \<and> spawns Bridge (trace s1) + m \<le> spawns Bridge (trace s) + min m1 MAX_RESTARTS
      \<and> ((n1 \<le> MAX_RESTARTS \<and> m1 \<le> MAX_RESTARTS)
         \<or> (r = Done () \<and> shutdown_event s1
           \<and> ((n1 = MAX_RESTARTS + 1 \<and> m1 \<le> MAX_RESTARTS
                \<and> Fatal (''OpenCode crashed '' @ str_int (int n1) @ '' times, giving up'')
                     \<in> set (trace s1))
              \<or> (m1 = MAX_RESTARTS + 1 \<and> n1 \<le> MAX_RESTARTS
                \<and> Fatal (''Bridge crashed '' @ str_int (int m1) @ '' times, giving up'')
                     \<in> set (trace s1)))))"
  have start: "?I n m s" using low by simp
  show ?thesis
  proof (rule monitor_loop_rule [where I = ?I and A = ?I and Q = ?Q, OF start run])
    fix n1 m1 s1
    assume "?I n1 m1 s1"
    then show "?Q (Done ()) n1 m1 s1" by simp
  next
    fix n1 m1 s1
    assume "?I n1 m1 s1"
    then show "?Q Pending n1 m1 s1" by simp
  next
    fix t n1 m1 s1 f n2 s2
    assume inv: "?I n1 m1 s1"
      and step: "check_opencode cfg t n1 (settle (opencode_process s1) (agent_exit t) s1) = (f, n2, s2)"
    have low1: "n1 \<le> MAX_RESTARTS" using inv by simp
    note st = check_opencode_step [OF step low1]
    show "case f of Continue \<Rightarrow> ?I n2 m1 s2 | Break \<Rightarrow> ?Q (Done ()) n2 m1 s2
         | Abort e \<Rightarrow> ?Q (Raised e) n2 m1 s2 | Blocked \<Rightarrow> ?Q Pending n2 m1 s2"
      using inv st by (cases f) auto
  next
    fix t n1 m1 s1 f m2 s2
    assume inv: "?I n1 m1 s1"
      and step: "check_bridge cfg t m1 (settle (bridge_process s1) (bridge_exit t) s1) = (f, m2, s2)"
    have low1: "m1 \<le> MAX_RESTARTS" using inv by simp
    note st = check_bridge_step [OF step low1]
    show "case f of
            Continue \<Rightarrow> ?I n1 m2 (s2\<lparr>shutdown_event := (shutdown_event s2 \<or> signal t)\<rparr>)
          | Break \<Rightarrow> ?Q (Done ()) n1 m2 s2
          | Abort e \<Rightarrow> ?Q (Raised e) n1 m2 s2 | Blocked \<Rightarrow> ?Q Pending n1 m2 s2"
      using inv st by (cases f) auto
  qed
qed

lemma monitor_loop_local_counters:
  assumes run: "monitor_loop_local cfg ts n m s = (r, (n', m'), s')"
    and low: "n \<le> MAX_RESTARTS" "m \<le> MAX_RESTARTS"
  shows "n \<le> n' \<and> m \<le> m'
      \<and> spawns Agent (trace s') + n \<le> spawns Agent (trace s) + min n' MAX_RESTARTS
      \<and> spawns Bridge (trace s') + m \<le> spawns Bridge (trace s) + min m' MAX_RESTARTS
      \<and> ((n' \<le> MAX_RESTARTS \<and> m' \<le> MAX_RESTARTS)
         \<or> (r = Done () \<and> ((n' = MAX_RESTARTS + 1 \<and> m' \<le> MAX_RESTARTS) \<or> (m' = MAX_RESTARTS + 1 \<and> n' \<le> MAX_RESTARTS))))"
proof -
  let ?I = "\<lambda>n1 m1 s1. n \<le> n1 \<and> m \<le> m1 \<and> n1 \<le> MAX_RESTARTS \<and> m1 \<le> MAX_RESTARTS
      \<and> spawns Agent (trace s1) + n \<le> spawns Agent (trace s) + n1
      \<and> spawns Bridge (trace s1) + m \<le> spawns Bridge (trace s) + m1"
  let ?Q = "\<lambda>r n1 m1 s1. n \<le> n1 \<and> m \<le> m1
      \<and> spawns Agent (trace s1) + n \<le> spawns Agent (trace s) + min n1 MAX_RESTARTS
      \<and> spawns Bridge (trace s1) + m \<le> spawns Bridge (trace s) + min m1 MAX_RESTARTS
      \<and> ((n1 \<le> MAX_RESTARTS \<and> m1 \<le> MAX_RESTARTS)
         \<or> (r = Done () \<and> ((n1 = MAX_RESTARTS + 1 \<and> m1 \<le> MAX_RESTARTS) \<or> (m1 = MAX_RESTARTS + 1 \<and> n1 \<le> MAX_RESTARTS))))"
  have start: "?I n m s" using low by simp
  show ?thesis
  proof (rule monitor_loop_local_rule [where I = ?I and A = ?I and Q = ?Q, OF start run])
    fix n1 m1 s1
    assume "?I n1 m1 s1"
    then show "?Q (Done ()) n1 m1 s1" by simp
  next
    fix n1 m1 s1
    assume "?I n1 m1 s1"
    then show "?Q Pending n1 m1 s1" by simp
  next
    fix t n1 m1 s1 f n2 s2
    assume inv: "?I n1 m1 s1"
      and step: "check_opencode_local t n1 (settle (opencode_process s1) (agent_exit t) s1) = (f, n2, s2)"
    have low1: "n1 \<le> MAX_RESTARTS" using inv by simp
    note st = check_opencode_local_step [OF step low1]
    show "case f of Continue \<Rightarrow> ?I n2 m1 s2 | Break \<Rightarrow> ?Q (Done ()) n2 m1 s2
         | Abort e \<Rightarrow> ?Q (Raised e) n2 m1 s2 | Blocked \<Rightarrow> ?Q Pending n2 m1 s2"
      using inv st by (cases f) auto
  next
    fix t n1 m1 s1 f m2 s2
    assume inv: "?I n1 m1 s1"
      and step: "check_bridge_local cfg t m1 (settle (bridge_process s1) (bridge_exit t) s1) = (f, m2, s2)"
    have low1: "m1 \<le> MAX_RESTARTS" using inv by simp
    note st = check_bridge_local_step [OF step low1]
    show "case f of
            Continue \<Rightarrow> ?I n1 m2 (s2\<lparr>shutdown_event := (shutdown_event s2 \<or> signal t)\<rparr>)
          | Break \<Rightarrow> ?Q (Done ()) n1 m2 s2
          | Abort e \<Rightarrow> ?Q (Raised e) n1 m2 s2 | Blocked \<Rightarrow> ?Q Pending n1 m2 s2"
      using inv st by (cases f) auto
  qed
qed


lemma spawns_startup_and_monitor:
  assumes "startup_and_monitor cfg w init = (r, s)"
  shows "spawns k (trace s) \<le> MAX_RESTARTS + 1"
proof -
  obtain r1 s1 where g: "perform_git_sync cfg (git w) init = (r1, s1)"
    by (cases "perform_git_sync cfg (git w) init")
  have t1: "spawns Agent (trace s1) = 0" "spawns Bridge (trace s1) = 0"
    using perform_git_sync_fields [OF g] by (simp_all add: init_def)
  obtain r2 s2 where a: "start_opencode (first_agent w) s1 = (r2, s2)"
    by (cases "start_opencode (first_agent w) s1")
  note sa = start_opencode_spawns [OF a]
  obtain r3 s3 where b: "start_bridge cfg (first_bridge w) s2 = (r3, s3)"
    by (cases "start_bridge cfg (first_bridge w) s2")
  note sb = start_bridge_spawns [OF b]
  let ?s3 = "s3\<lparr>shutdown_event := (shutdown_event s3 \<or> startup_signal w)\<rparr>"
  obtain r4 n4 m4 s4 where m: "monitor_loop cfg (ticks w) 0 0 ?s3 = (r4, (n4, m4), s4)"
    by (cases "monitor_loop cfg (ticks w) 0 0 ?s3") auto
  from monitor_loop_counters [OF m]
  have c: "spawns Agent (trace s4) \<le> spawns Agent (trace s3) + min n4 MAX_RESTARTS"
    "spawns Bridge (trace s4) \<le> spawns Bridge (trace s3) + min m4 MAX_RESTARTS"
    by simp_all
  have sm: "spawns Agent (trace s4) \<le> spawns Agent (trace s3) + MAX_RESTARTS"
    "spawns Bridge (trace s4) \<le> spawns Bridge (trace s3) + MAX_RESTARTS"
    using c by arith+
  have s1: "spawns k (trace s1) \<le> MAX_RESTARTS + 1" using t1 by (cases k) simp_all
  have s2: "spawns k (trace s2) \<le> MAX_RESTARTS + 1" using t1 sa by (cases k) simp_all
  have s3: "spawns k (trace s3) \<le> MAX_RESTARTS + 1" using t1 sa sb by (cases k) simp_all
  have s4: "spawns k (trace s4) \<le> MAX_RESTARTS + 1"
  proof (cases k)
    case Agent
    have "spawns Agent (trace s4) \<le> MAX_RESTARTS + 1" using t1(1) sa(1) sb(2) sm(1) by linarith
    then show ?thesis using Agent by simp
  next
    case Bridge
    have "spawns Bridge (trace s4) \<le> MAX_RESTARTS + 1" using t1(2) sa(2) sb(1) sm(2) by linarith
    then show ?thesis using Bridge by simp
  qed
  show ?thesis
  proof (cases r1)
    case (Done ok)
    show ?thesis
    proof (cases r2)
      case d2: (Done u2)
      show ?thesis
      proof (cases r3)
        case d3: (Done u3)
        then show ?thesis using assms g a b m Done d2 s4
          by (simp add: startup_and_monitor_def monitor_processes_def)
      qed (use assms g a b Done d2 s3 in \<open>simp_all add: startup_and_monitor_def\<close>)
    qed (use assms g a Done s2 in \<open>simp_all add: startup_and_monitor_def\<close>)
  qed (use assms g s1 in \<open>simp_all add: startup_and_monitor_def\<close>)
qed

lemma spawns_startup_and_monitor_local:
  assumes "startup_and_monitor_local cfg w init = (r, s)"
  shows "spawns k (trace s) \<le> MAX_RESTARTS + 1"
proof -
  have t1: "spawns Agent (trace init) = 0" "spawns Bridge (trace init) = 0"
    by (simp_all add: init_def)
  obtain r2 s2 where a: "start_opencode_local (local_agent w) init = (r2, s2)"
    by (cases "start_opencode_local (local_agent w) init")
  note sa = start_opencode_local_spawns [OF a]
  obtain r3 s3 where b: "start_bridge_local cfg (local_bridge w) s2 = (r3, s3)"
    by (cases "start_bridge_local cfg (local_bridge w) s2")
  note sb = start_bridge_local_spawns [OF b]
  let ?s3 = "s3\<lparr>shutdown_event := (shutdown_event s3 \<or> local_startup_signal w)\<rparr>"
  obtain r4 n4 m4 s4 where m: "monitor_loop_local cfg (local_ticks w) 0 0 ?s3 = (r4, (n4, m4), s4)"
    by (cases "monitor_loop_local cfg (local_ticks w) 0 0 ?s3") auto
  from monitor_loop_local_counters [OF m]
  have c: "spawns Agent (trace s4) \<le> spawns Agent (trace s3) + min n4 MAX_RESTARTS"
    "spawns Bridge (trace s4) \<le> spawns Bridge (trace s3) + min m4 MAX_RESTARTS"
    by simp_all
  have sm: "spawns Agent (trace s4) \<le> spawns Agent (trace s3) + MAX_RESTARTS"
    "spawns Bridge (trace s4) \<le> spawns Bridge (trace s3) + MAX_RESTARTS"
    using c by arith+
  have s0: "spawns k (trace init) \<le> MAX_RESTARTS + 1" using t1 by (cases k) simp_all
  have s2: "spawns k (trace s2) \<le> MAX_RESTARTS + 1" using t1 sa by (cases k) simp_all
  have s3: "spawns k (trace s3) \<le> MAX_RESTARTS + 1" using t1 sa sb by (cases k) simp_all
  have s4: "spawns k (trace s4) \<le> MAX_RESTARTS + 1"
  proof (cases k)
    case Agent
    have "spawns Agent (trace s4) \<le> MAX_RESTARTS + 1" using t1(1) sa(1) sb(2) sm(1) by linarith
    then show ?thesis using Agent by simp
  next
    case Bridge
    have "spawns Bridge (trace s4) \<le> MAX_RESTARTS + 1" using t1(2) sa(2) sb(1) sm(2) by linarith
    then show ?thesis using Bridge by simp
  qed
  show ?thesis
  proof (cases "workspace_is_git w")
    case False
    then show ?thesis using assms s0 by (simp add: startup_and_monitor_local_def)
  next
    case git: True
    show ?thesis
    proof (cases "setup_script w")
      case (Raises e)
      then show ?thesis using assms git s0 by (simp add: startup_and_monitor_local_def)
    next
      case (Returns u)
      show ?thesis
      proof (cases r2)
        case (Done u2)
        show ?thesis
        proof (cases r3)
          case d3: (Done u3)
          then show ?thesis using assms git Returns a b m Done s4
            by (simp add: startup_and_monitor_local_def monitor_processes_local_def)
        qed (use assms git Returns a b Done s3 in \<open>simp_all add: startup_and_monitor_local_def\<close>)
      qed (use assms git Returns a s2 in \<open>simp_all add: startup_and_monitor_local_def\<close>)
    qed
  qed
qed

lemma spawns_run: "spawns k (trace (snd (run cfg w))) \<le> MAX_RESTARTS + 1"
proof -
  obtain r s where t: "startup_and_monitor cfg w init = (r, s)"
    by (cases "startup_and_monitor cfg w init")
  show ?thesis
    using spawns_startup_and_monitor [OF t, of k] t by (cases r) (simp_all add: run_def)
qed

lemma spawns_run_local: "spawns k (trace (snd (run_local cfg w))) \<le> MAX_RESTARTS + 1"
proof -
  obtain r s where t: "startup_and_monitor_local cfg w init = (r, s)"
    by (cases "startup_and_monitor_local cfg w init")
  show ?thesis
    using spawns_startup_and_monitor_local [OF t, of k] t by (cases r) (simp_all add: run_local_def)
qed


text \<open>
  Claim C3 as stated fails in two places. In the remote variant a bridge exit with code 0
  is an exit the loop observes, and the bridge counter stays at 0. In the local variant an
  agent that has exited six times ends the loop with no fatal error reported.
\<close>

theorem zero_exit_not_counted_and_local_reports_nothing:
  "fst (snd (monitor_processes acme_config [quiet_tick\<lparr>bridge_exit := Some 0\<rparr>] started)) = (0, 0)
   \<and> trace (snd (snd (monitor_processes acme_config [quiet_tick\<lparr>bridge_exit := Some 0\<rparr>] started)))
       = [Spawned Agent 0, HealthOk, ReadySet, Spawned Bridge 1, ObservedExit Bridge 0]
   \<and> fst (run_local acme_config agent_flaps_local) = Done ()
   \<and> spawns Agent (trace (snd (run_local acme_config agent_flaps_local))) = 6
   \<and> filter is_fatal (trace (snd (run_local acme_config agent_flaps_local))) = []"
  by code_simp

text \<open>
  Claim C3, amended. In one turn of the loop the agent counter goes up by one if an exit of
  the agent is found and stays as it is otherwise (both variants). The bridge counter goes
  up by one if an exit of the bridge with a non-zero code is found and stays as it is if
  none is found; in the remote variant an exit with code 0 leaves it as it is. Over the
  whole loop no counter ever goes down. Once a counter passes \<^verbatim>\<open>MAX_RESTARTS\<close> the loop
  has ended without another spawn; in the remote variant the fatal error has been reported
  and \<^verbatim>\<open>shutdown_event\<close> is set. When the loop has ended, \<^verbatim>\<open>run\<close> goes on to the
  shutdown sequence. In a whole run of either variant each child is spawned at most 6
  times.
\<close>

theorem restart_counters_and_spawn_bound:
  "(check_opencode cfg t n s = (f, n', s') \<longrightarrow>
      n' = (case exit_seen (opencode_process s) s of None \<Rightarrow> n | Some c \<Rightarrow> n + 1))
   \<and> (check_bridge cfg t n s = (f, n', s') \<longrightarrow>
      n' = (case exit_seen (bridge_process s) s of
              None \<Rightarrow> n | Some c \<Rightarrow> if c = 0 then n else n + 1))
   \<and> (check_opencode_local t n s = (f, n', s') \<longrightarrow>
      n' = (case exit_seen (opencode_process s) s of None \<Rightarrow> n | Some c \<Rightarrow> n + 1))
   \<and> (check_bridge_local cfg t n s = (f, n', s') \<and> exit_seen (bridge_process s) s \<noteq> Some 0 \<longrightarrow>
      n' = (case exit_seen (bridge_process s) s of None \<Rightarrow> n | Some c \<Rightarrow> n + 1))
   \<and> (monitor_loop cfg ts n m s = (r, (rn, rm), s1) \<and> n \<le> MAX_RESTARTS \<and> m \<le> MAX_RESTARTS \<longrightarrow>
        n \<le> rn \<and> m \<le> rm
        \<and> ((rn \<le> MAX_RESTARTS \<and> rm \<le> MAX_RESTARTS)
           \<or> (r = Done () \<and> shutdown_event s1
              \<and> ((rn = MAX_RESTARTS + 1 \<and> rm \<le> MAX_RESTARTS
                   \<and> Fatal (''OpenCode crashed '' @ str_int (int rn) @ '' times, giving up'')
                        \<in> set (trace s1))
                 \<or> (rm = MAX_RESTARTS + 1 \<and> rn \<le> MAX_RESTARTS
                   \<and> Fatal (''Bridge crashed '' @ str_int (int rm) @ '' times, giving up'')
                        \<in> set (trace s1))))))
   \<and> (monitor_loop_local cfg ts n m s = (r, (rn, rm), s1) \<and> n \<le> MAX_RESTARTS \<and> m \<le> MAX_RESTARTS \<longrightarrow>
        n \<le> rn \<and> m \<le> rm
        \<and> ((rn \<le> MAX_RESTARTS \<and> rm \<le> MAX_RESTARTS)
           \<or> (r = Done () \<and> ((rn = MAX_RESTARTS + 1 \<and> rm \<le> MAX_RESTARTS)
                             \<or> (rm = MAX_RESTARTS + 1 \<and> rn \<le> MAX_RESTARTS)))))
   \<and> spawns k (trace (snd (run cfg w))) \<le> MAX_RESTARTS + 1
   \<and> spawns k (trace (snd (run_local cfg lw))) \<le> MAX_RESTARTS + 1
   \<and> (startup_and_monitor cfg w init = (Done (), s0) \<longrightarrow>
        run cfg w = (Done (), shutdown (stopping w) s0))
   \<and> (startup_and_monitor_local cfg lw init = (Done (), s0) \<longrightarrow>
        run_local cfg lw = (Done (), shutdown (local_stopping lw) s0))"
proof -
  have remote: "n \<le> rn \<and> m \<le> rm
        \<and> ((rn \<le> MAX_RESTARTS \<and> rm \<le> MAX_RESTARTS)
           \<or> (r = Done () \<and> shutdown_event s1
              \<and> ((rn = MAX_RESTARTS + 1 \<and> rm \<le> MAX_RESTARTS
                   \<and> Fatal (''OpenCode crashed '' @ str_int (int rn) @ '' times, giving up'')
                        \<in> set (trace s1))
                 \<or> (rm = MAX_RESTARTS + 1 \<and> rn \<le> MAX_RESTARTS
                   \<and> Fatal (''Bridge crashed '' @ str_int (int rm) @ '' times, giving up'')
                        \<in> set (trace s1)))))"
    if a: "monitor_loop cfg ts n m s = (r, (rn, rm), s1) \<and> n \<le> MAX_RESTARTS \<and> m \<le> MAX_RESTARTS"
  proof -
    from a have run: "monitor_loop cfg ts n m s = (r, (rn, rm), s1)"
      and low: "n \<le> MAX_RESTARTS" "m \<le> MAX_RESTARTS" by simp_all
    note c = monitor_loop_counters [OF run low]
    from c have c1: "n \<le> rn" and c2: "m \<le> rm" by simp_all
    note c5 = c [THEN conjunct2, THEN conjunct2, THEN conjunct2, THEN conjunct2]
    show ?thesis using c1 c2 c5 by (intro conjI)
  qed
  have local: "n \<le> rn \<and> m \<le> rm
        \<and> ((rn \<le> MAX_RESTARTS \<and> rm \<le> MAX_RESTARTS)
           \<or> (r = Done () \<and> ((rn = MAX_RESTARTS + 1 \<and> rm \<le> MAX_RESTARTS)
                             \<or> (rm = MAX_RESTARTS + 1 \<and> rn \<le> MAX_RESTARTS))))"
    if a: "monitor_loop_local cfg ts n m s = (r, (rn, rm), s1) \<and> n \<le> MAX_RESTARTS \<and> m \<le> MAX_RESTARTS"
  proof -
    from a have run: "monitor_loop_local cfg ts n m s = (r, (rn, rm), s1)"
      and low: "n \<le> MAX_RESTARTS" "m \<le> MAX_RESTARTS" by simp_all
    note c = monitor_loop_local_counters [OF run low]
    from c have c1: "n \<le> rn" and c2: "m \<le> rm" by simp_all
    note c5 = c [THEN conjunct2, THEN conjunct2, THEN conjunct2, THEN conjunct2]
    show ?thesis using c1 c2 c5 by (intro conjI)
  qed
  show ?thesis
    apply (intro conjI)
           apply (rule impI, erule check_opencode_counter)
          apply (rule impI, erule check_bridge_counter)
         apply (rule impI, erule check_opencode_local_counter)
        apply (rule impI, erule conjE, erule check_bridge_local_counter)
       apply (rule impI, erule remote)
      apply (rule impI, erule local)
     apply (rule spawns_run)
    apply (rule spawns_run_local)
    apply (rule impI, simp add: run_def)
    apply (rule impI, simp add: run_local_def)
    done
qed

theorem restart_counters_and_spawn_bound_witness:
  "fst (monitor_loop acme_config agent_flaps_ticks 0 0 started) = Done ()
   \<and> fst (snd (monitor_loop acme_config agent_flaps_ticks 0 0 started)) = (6, 0)
   \<and> shutdown_event (snd (snd (monitor_loop acme_config agent_flaps_ticks 0 0 started)))
   \<and> fst (monitor_loop_local acme_config agent_flaps_ticks 0 0 started) = Done ()
   \<and> fst (snd (monitor_loop_local acme_config agent_flaps_ticks 0 0 started)) = (6, 0)
   \<and> fst (snd (check_opencode acme_config quiet_tick 2 agent_crashed)) = 3
   \<and> fst (snd (check_opencode_local quiet_tick 2 agent_crashed)) = 3
   \<and> fst (snd (check_bridge acme_config quiet_tick 2 bridge_crashed)) = 3
   \<and> fst (snd (check_bridge_local acme_config quiet_tick 2 bridge_crashed)) = 3
   \<and> fst (snd (check_bridge acme_config quiet_tick 2 started)) = 2
   \<and> spawns Agent (trace (snd (run acme_config agent_flaps_world))) = 6
   \<and> spawns Agent (trace (snd (run_local acme_config agent_flaps_local))) = 6"
proof -
  let ?m = "monitor_loop acme_config agent_flaps_ticks 0 0 started"
  let ?l = "monitor_loop_local acme_config agent_flaps_ticks 0 0 started"
  let ?a = "check_opencode acme_config quiet_tick 2 agent_crashed"
  let ?al = "check_opencode_local quiet_tick 2 agent_crashed"
  let ?b = "check_bridge acme_config quiet_tick 2 bridge_crashed"
  let ?bl = "check_bridge_local acme_config quiet_tick 2 bridge_crashed"
  let ?q = "check_bridge acme_config quiet_tick 2 started"
  have six: "fst (snd ?m) = (6, 0)" by code_simp
  have run: "?m = (fst ?m, (6, 0), snd (snd ?m))"
    using six by (metis prod.collapse)
  have six_local: "fst (snd ?l) = (6, 0)" by code_simp
  have run_local: "?l = (fst ?l, (6, 0), snd (snd ?l))"
    using six_local by (metis prod.collapse)
  have seen_agent: "exit_seen (opencode_process agent_crashed) agent_crashed = Some 137"
    by code_simp
  have seen_bridge: "exit_seen (bridge_process bridge_crashed) bridge_crashed = Some 1"
    by code_simp
  have seen_none: "exit_seen (bridge_process started) started = None"
    by code_simp
  have spawned: "spawns Agent (trace (snd (run acme_config agent_flaps_world))) = 6"
    "spawns Agent (trace (snd (run_local acme_config agent_flaps_local))) = 6"
    by code_simp+
  note loops = restart_counters_and_spawn_bound [of acme_config quiet_tick 0 started _ _ _ agent_flaps_ticks 0 "fst ?m" 6 0
      "snd (snd ?m)" Agent agent_flaps_world agent_flaps_local]
  note loops_local = restart_counters_and_spawn_bound [of acme_config quiet_tick 0 started _ _ _ agent_flaps_ticks 0 "fst ?l" 6 0
      "snd (snd ?l)" Agent agent_flaps_world agent_flaps_local]
  note agent = restart_counters_and_spawn_bound [of acme_config quiet_tick 2 agent_crashed "fst ?a" "fst (snd ?a)" "snd (snd ?a)"]
  note agent_local = restart_counters_and_spawn_bound [of acme_config quiet_tick 2 agent_crashed "fst ?al" "fst (snd ?al)" "snd (snd ?al)"]
  note bridge = restart_counters_and_spawn_bound [of acme_config quiet_tick 2 bridge_crashed "fst ?b" "fst (snd ?b)" "snd (snd ?b)"]
  note bridge_local = restart_counters_and_spawn_bound [of acme_config quiet_tick 2 bridge_crashed "fst ?bl" "fst (snd ?bl)" "snd (snd ?bl)"]
  note quiet = restart_counters_and_spawn_bound [of acme_config quiet_tick 2 started "fst ?q" "fst (snd ?q)" "snd (snd ?q)"]
  have 1: "fst ?m = Done () \<and> shutdown_event (snd (snd ?m))"
    using loops run by (simp add: MAX_RESTARTS_def)
  have 2: "fst ?l = Done ()"
    using loops_local run_local by (simp add: MAX_RESTARTS_def)
  have 3: "fst (snd ?a) = 3" using agent seen_agent by simp
  have 4: "fst (snd ?al) = 3" using agent_local seen_agent by simp
  have 5: "fst (snd ?b) = 3" using bridge seen_bridge by simp
  have 6: "fst (snd ?bl) = 3" using bridge_local seen_bridge by simp
  have 7: "fst (snd ?q) = 2" using quiet seen_none by simp
  show ?thesis using 1 2 3 4 5 6 7 six six_local spawned by simp
qed

subsection \<open>A bridge exit with code 0\<close>

text \<open>
  The remote variant does what the claim says: a bridge exit with code 0 ends the loop with
  \<^verbatim>\<open>shutdown_event\<close> set and without a spawn, and the bridge branch spawns only after an
  exit with a non-zero code.
\<close>

lemma bridge_zero_exit_stops:
  assumes "exit_seen (bridge_process s) s = Some 0"
  shows "check_bridge cfg t m s = (Break, m, (emit (ObservedExit Bridge 0) s)\<lparr>shutdown_event := True\<rparr>)"
  using assms
  by (auto simp: check_bridge_def exit_seen_def Let_def split: option.splits)

lemma bridge_restart_needs_crash:
  assumes "check_bridge cfg t m s = (f, m', s')"
    and "spawns Bridge (trace s) < spawns Bridge (trace s')"
  shows "\<exists>c. c \<noteq> 0 \<and> exit_seen (bridge_process s) s = Some c"
  using assms(1)
proof (cases rule: check_bridge_cases)
  case Idle
  then show ?thesis using assms(2) by simp
next
  case (Graceful h)
  then show ?thesis using assms(2) by simp
next
  case (Exceeded h c)
  then show ?thesis using assms(2) by simp
next
  case (Restart h c r)
  then show ?thesis by (simp add: exit_seen_def)
qed

lemma monitor_stops_on_bridge_zero_exit:
  assumes "\<not> shutdown_event s"
    and "check_opencode cfg t n (settle (opencode_process s) (agent_exit t) s) = (Continue, n1, s1)"
    and "exit_seen (bridge_process s1) (settle (bridge_process s1) (bridge_exit t) s1) = Some 0"
  shows "monitor_loop cfg (t # ts) n m s =
     (Done (), (n1, m),
      (emit (ObservedExit Bridge 0) (settle (bridge_process s1) (bridge_exit t) s1))\<lparr>shutdown_event := True\<rparr>)"
proof -
  have "exit_seen (bridge_process (settle (bridge_process s1) (bridge_exit t) s1))
      (settle (bridge_process s1) (bridge_exit t) s1) = Some 0"
    using assms(3) by simp
  from bridge_zero_exit_stops [OF this, of cfg t m] show ?thesis
    using assms(1,2) by simp
qed

text \<open>
  Claim C4, evaluated where the bridge exits with code 0 in the second turn of monitoring.
  The remote variant observes the exit, sets \<^verbatim>\<open>shutdown_event\<close> and shuts down; the bridge
  is spawned once. The local variant observes the same exit, sleeps 2 s and spawns the
  bridge again; \<^verbatim>\<open>shutdown_event\<close> stays unset and the loop goes on.
\<close>

theorem local_variant_restarts_bridge_after_zero_exit:
  "fst (run acme_config bridge_done_world) = Done ()
   \<and> trace (snd (run acme_config bridge_done_world)) =
       [Spawned Agent 0, HealthOk, ReadySet, Spawned Bridge 1, ObservedExit Bridge 0,
        ShutdownStart, Terminate 0, Waited 0 10, Reaped 0 0, ShutdownComplete]
   \<and> fst (run_local acme_config bridge_done_local) = Pending
   \<and> shutdown_event (snd (run_local acme_config bridge_done_local)) = False
   \<and> trace (snd (run_local acme_config bridge_done_local)) =
       [Spawned Agent 0, HealthOk, ReadySet, Spawned Bridge 1, ObservedExit Bridge 0,
        Backoff 2, Spawned Bridge 2]"
  by code_simp

end
